theory Spec2Isabelle
  imports Main "HOL-Library.AList" "HOL-Library.Extended_Nat" "HOL-Library.Sublist"
begin

section \<open>Entries, options and expiry\<close>

text \<open>
  A cached value has the TypeScript type \<open>T | undefined\<close>: \<open>get\<close> answers
  \<open>undefined\<close> for a miss, and a caller may also store \<open>undefined\<close>.
  Times are milliseconds (\<open>Date.now()\<close>), modelled as integers; every operation
  reads the clock once, so each operation takes the current time \<open>now\<close> as an
  argument.
\<close>

datatype 'v js = Undefined | Val 'v

record 'v CacheEntry =
  entry_value :: "'v js"
  timestamp :: int
  expiry :: "int option"

text \<open>
  \<open>CacheOptions\<close>: the fields the adapters read. \<open>None\<close> is an absent field.
\<close>

record CacheOptions =
  ttl :: "int option"
  maxSize :: "nat option"

definition no_options :: CacheOptions where
  "no_options = \<lparr>ttl = None, maxSize = None\<rparr>"

text \<open>
  \<open>options?.maxSize || Infinity\<close>: an absent bound and the falsy bound 0 both give
  \<open>Infinity\<close>.
\<close>

definition resolve_maxSize :: "CacheOptions \<Rightarrow> enat" where
  "resolve_maxSize options =
     (case maxSize options of
        None \<Rightarrow> \<infinity>
      | Some n \<Rightarrow> if n = 0 then \<infinity> else enat n)"

text \<open>
  \<open>isExpired\<close>, the same in the three adapters:
  \<^verbatim>\<open>if (!entry.expiry) return false; return Date.now() >= entry.expiry;\<close>
  An absent expiry and the falsy expiry 0 never expire.
\<close>

definition isExpired :: "int \<Rightarrow> 'v CacheEntry \<Rightarrow> bool" where
  "isExpired now entry =
     (case expiry entry of
        None \<Rightarrow> False
      | Some x \<Rightarrow> if x = 0 then False else now \<ge> x)"

text \<open>
  The entry every \<open>set\<close> builds:
  \<^verbatim>\<open>{ value, timestamp: Date.now(), expiry: options?.ttl ? Date.now() + options.ttl : undefined }\<close>
  A falsy \<open>ttl\<close> (absent or 0) gives no expiry.
\<close>

definition new_entry :: "int \<Rightarrow> 'v js \<Rightarrow> CacheOptions \<Rightarrow> 'v CacheEntry" where
  "new_entry now v options =
     \<lparr>entry_value = v, timestamp = now,
      expiry = (case ttl options of
                  None \<Rightarrow> None
                | Some d \<Rightarrow> if d = 0 then None else Some (now + d))\<rparr>"

section \<open>The volatile adapter (MemoryAdapter)\<close>

text \<open>
  \<open>store\<close> is a JavaScript \<open>Map\<close>, which keeps its keys in insertion order: an
  association list with distinct keys, where \<open>Map.set\<close> replaces in place or appends
  (\<open>AList.update\<close>), \<open>Map.delete\<close> is \<open>AList.delete\<close> and \<open>size\<close> is the length.
\<close>

record 'v MemoryAdapter =
  mem_store :: "(string \<times> 'v CacheEntry) list"
  mem_maxSize :: enat
  mem_accessOrder :: "string list"

definition MemoryAdapter_new :: "CacheOptions \<Rightarrow> 'v MemoryAdapter" where
  "MemoryAdapter_new options =
     \<lparr>mem_store = [], mem_maxSize = resolve_maxSize options, mem_accessOrder = []\<rparr>"

definition mem_updateAccessOrder :: "string \<Rightarrow> 'v MemoryAdapter \<Rightarrow> 'v MemoryAdapter" where
  "mem_updateAccessOrder key s =
     s\<lparr>mem_accessOrder := filter (\<lambda>k. k \<noteq> key) (mem_accessOrder s) @ [key]\<rparr>"

text \<open>Removing one key from the store and from the access order.\<close>

definition mem_remove :: "string \<Rightarrow> 'v MemoryAdapter \<Rightarrow> 'v MemoryAdapter" where
  "mem_remove key s =
     s\<lparr>mem_store := AList.delete key (mem_store s),
       mem_accessOrder := filter (\<lambda>k. k \<noteq> key) (mem_accessOrder s)\<rparr>"

text \<open>
  The first two steps of \<open>cleanup\<close>: drop the access-order keys that are not in the
  store, then walk the entries of the store and remove the expired ones.
\<close>

definition mem_purge :: "int \<Rightarrow> 'v MemoryAdapter \<Rightarrow> 'v MemoryAdapter" where
  "mem_purge now s =
     (let s1 = s\<lparr>mem_accessOrder :=
                   filter (\<lambda>key. key \<in> set (map fst (mem_store s))) (mem_accessOrder s)\<rparr>
      in fold (\<lambda>(key, entry) st. if isExpired now entry then mem_remove key st else st)
              (mem_store s1) s1)"

text \<open>
  The last step of \<open>cleanup\<close>:
  \<^verbatim>\<open>
  while (this.store.size > this.maxSize && this.accessOrder.length > 0) {
    const oldestKey = this.accessOrder[0];
    if (oldestKey) { this.store.delete(oldestKey); this.accessOrder.shift(); }
  }\<close>
  The empty string is falsy: when it heads the access order the body changes nothing
  and the loop never ends. Not returning is the value \<open>None\<close>.
\<close>

partial_function (option) mem_evict_loop :: "'v MemoryAdapter \<Rightarrow> 'v MemoryAdapter option" where
  "mem_evict_loop s =
     (if enat (length (mem_store s)) > mem_maxSize s \<and> length (mem_accessOrder s) > 0
      then (let oldestKey = hd (mem_accessOrder s) in
            if oldestKey \<noteq> []
            then mem_evict_loop
                   (s\<lparr>mem_store := AList.delete oldestKey (mem_store s),
                      mem_accessOrder := tl (mem_accessOrder s)\<rparr>)
            else mem_evict_loop s)
      else Some s)"

declare mem_evict_loop.simps [code]

definition mem_cleanup :: "int \<Rightarrow> 'v MemoryAdapter \<Rightarrow> 'v MemoryAdapter option" where
  "mem_cleanup now s = mem_evict_loop (mem_purge now s)"

text \<open>
  \<open>get\<close> returns the value and the new state. A miss is \<open>Undefined\<close>.
\<close>

definition mem_get :: "string \<Rightarrow> int \<Rightarrow> 'v MemoryAdapter \<Rightarrow> 'v js \<times> 'v MemoryAdapter" where
  "mem_get key now s =
     (case map_of (mem_store s) key of
        None \<Rightarrow> (Undefined, s)
      | Some entry \<Rightarrow>
          if isExpired now entry then (Undefined, mem_remove key s)
          else (entry_value entry, mem_updateAccessOrder key s))"

text \<open>
  The eviction inside \<open>set\<close>:
  \<^verbatim>\<open>
  if (this.store.size >= this.maxSize && !this.store.has(key)) {
    const oldestKey = this.accessOrder[0];
    if (oldestKey) { this.store.delete(oldestKey); this.accessOrder.shift(); }
  }\<close>
  \<open>accessOrder[0]\<close> of an empty array is \<open>undefined\<close>, which is falsy, as is the
  empty string.
\<close>

definition mem_evict_for :: "string \<Rightarrow> 'v MemoryAdapter \<Rightarrow> 'v MemoryAdapter" where
  "mem_evict_for key s =
     (if enat (length (mem_store s)) \<ge> mem_maxSize s \<and> map_of (mem_store s) key = None
      then (case mem_accessOrder s of
              [] \<Rightarrow> s
            | oldestKey # rest \<Rightarrow>
                if oldestKey \<noteq> []
                then s\<lparr>mem_store := AList.delete oldestKey (mem_store s),
                       mem_accessOrder := rest\<rparr>
                else s)
      else s)"

definition mem_set ::
  "string \<Rightarrow> 'v js \<Rightarrow> CacheOptions \<Rightarrow> int \<Rightarrow> 'v MemoryAdapter \<Rightarrow> 'v MemoryAdapter option" where
  "mem_set key v options now s =
     (case mem_cleanup now s of
        None \<Rightarrow> None
      | Some s1 \<Rightarrow>
          (let s2 = mem_evict_for key s1;
               s3 = s2\<lparr>mem_store := AList.update key (new_entry now v options) (mem_store s2)\<rparr>
           in Some (mem_updateAccessOrder key s3)))"

definition mem_delete :: "string \<Rightarrow> 'v MemoryAdapter \<Rightarrow> 'v MemoryAdapter" where
  "mem_delete key s = mem_remove key s"

definition mem_clear :: "'v MemoryAdapter \<Rightarrow> 'v MemoryAdapter" where
  "mem_clear s = s\<lparr>mem_store := [], mem_accessOrder := []\<rparr>"

text \<open>\<open>has\<close> does not touch the access order on a hit.\<close>

definition mem_has :: "string \<Rightarrow> int \<Rightarrow> 'v MemoryAdapter \<Rightarrow> bool \<times> 'v MemoryAdapter" where
  "mem_has key now s =
     (case map_of (mem_store s) key of
        None \<Rightarrow> (False, s)
      | Some entry \<Rightarrow>
          if isExpired now entry then (False, mem_remove key s)
          else (True, s))"

section \<open>The memoization wrapper\<close>

text \<open>
  \<open>memoize(fn, options)\<close> owns a fresh \<open>MemoryAdapter\<close>. The model threads the
  cache and a count of the invocations of \<open>fn\<close>; \<open>fn\<close> is a function of its
  arguments, and \<open>keyResolver\<close> is the configured resolver (by default
  \<open>JSON.stringify\<close> of the arguments).
  \<^verbatim>\<open>
  const key = keyResolver(...args);
  const cached = await cache.get(key);
  if (cached !== undefined) return cached;
  const result = await fn(...args);
  await cache.set(key, result, options);
  return result;\<close>
\<close>

definition memo_call ::
  "('a \<Rightarrow> 'v js) \<Rightarrow> ('a \<Rightarrow> string) \<Rightarrow> CacheOptions \<Rightarrow> int \<Rightarrow> 'a \<Rightarrow>
   'v MemoryAdapter \<times> nat \<Rightarrow> ('v js \<times> 'v MemoryAdapter \<times> nat) option" where
  "memo_call fn keyResolver options now args st =
     (let key = keyResolver args;
          (cached, cache1) = mem_get key now (fst st)
      in if cached \<noteq> Undefined then Some (cached, cache1, snd st)
         else (let result = fn args in
               case mem_set key result options now cache1 of
                 None \<Rightarrow> None
               | Some cache2 \<Rightarrow> Some (result, cache2, Suc (snd st))))"

text \<open>A series of calls \<open>(now, args)\<close> of one memoized function, with the results.\<close>

fun memo_run ::
  "('a \<Rightarrow> 'v js) \<Rightarrow> ('a \<Rightarrow> string) \<Rightarrow> CacheOptions \<Rightarrow> (int \<times> 'a) list \<Rightarrow>
   'v MemoryAdapter \<times> nat \<Rightarrow> ('v js list \<times> 'v MemoryAdapter \<times> nat) option" where
  "memo_run fn keyResolver options [] st = Some ([], st)"
| "memo_run fn keyResolver options ((now, args) # calls) st =
     (case memo_call fn keyResolver options now args st of
        None \<Rightarrow> None
      | Some (r, st1) \<Rightarrow>
          (case memo_run fn keyResolver options calls st1 of
             None \<Rightarrow> None
           | Some (rs, st2) \<Rightarrow> Some (r # rs, st2)))"

section \<open>Persistent documents and failing operations\<close>

text \<open>
  The two persistent adapters keep strings: \<open>JSON.stringify\<close> of an entry under each
  key, and \<open>JSON.stringify\<close> of the access order under one reserved name. A stored
  text is one of: the empty string, a non-empty text that \<open>JSON.parse\<close> rejects, the
  text of an entry, the text of an array of keys. Values are JSON data, which
  \<open>JSON.parse\<close> gives back as they were; an entry whose value is \<open>undefined\<close> is
  written without the field and read back with the value \<open>undefined\<close>.
\<close>

datatype 'v doc = EmptyText | Garbage | EntryDoc "'v CacheEntry" | OrderDoc "string list"

datatype error = SyntaxError | TypeError | QuotaExceededError | ENOENT

text \<open>
  \<open>JSON.parse(raw)\<close> read as an entry; \<open>None\<close> is the \<open>SyntaxError\<close>. An array
  has neither \<open>expiry\<close> nor \<open>value\<close> (the timestamp is never read).
\<close>

definition parse_entry :: "'v doc \<Rightarrow> 'v CacheEntry option" where
  "parse_entry raw =
     (case raw of
        EmptyText \<Rightarrow> None
      | Garbage \<Rightarrow> None
      | EntryDoc entry \<Rightarrow> Some entry
      | OrderDoc ks \<Rightarrow> Some \<lparr>entry_value = Undefined, timestamp = 0, expiry = None\<rparr>)"

text \<open>
  A computation on a state that may throw: it returns the error or the result, and
  the state it reached. \<open>io_catch m h\<close> is \<open>try { m } catch { h }\<close>.
\<close>

type_synonym ('s, 'a) io = "'s \<Rightarrow> (error + 'a) \<times> 's"

definition io_return :: "'a \<Rightarrow> ('s, 'a) io" where
  "io_return x = (\<lambda>s. (Inr x, s))"

definition io_throw :: "error \<Rightarrow> ('s, 'a) io" where
  "io_throw e = (\<lambda>s. (Inl e, s))"

definition io_bind :: "('s, 'a) io \<Rightarrow> ('a \<Rightarrow> ('s, 'b) io) \<Rightarrow> ('s, 'b) io" where
  "io_bind m f = (\<lambda>s. case m s of (Inl e, s') \<Rightarrow> (Inl e, s') | (Inr x, s') \<Rightarrow> f x s')"

definition io_catch :: "('s, 'a) io \<Rightarrow> ('s, 'a) io \<Rightarrow> ('s, 'a) io" where
  "io_catch m h = (\<lambda>s. case m s of (Inl e, s') \<Rightarrow> h s' | (Inr x, s') \<Rightarrow> (Inr x, s'))"

text \<open>
  The result of \<open>getAccessOrder\<close> is used as an array (\<open>.filter\<close>) by every caller;
  \<open>None\<close> stands for a parsed value that is not an array, on which that use throws
  a \<open>TypeError\<close>.
\<close>

definition as_array :: "string list option \<Rightarrow> ('s, string list) io" where
  "as_array order = (case order of None \<Rightarrow> io_throw TypeError | Some ks \<Rightarrow> io_return ks)"

section \<open>The persistent key/value adapter (LocalStorageAdapter)\<close>

text \<open>
  The browser's \<open>localStorage\<close>: its items, listed by \<open>Object.keys\<close> in the order
  they were first written, and its quota. The quota is the browser's: \<open>quota_ok\<close>
  tells whether a content fits, and \<open>setItem\<close> throws when the content it would
  produce does not.
\<close>

record 'v localStorage =
  items :: "(string \<times> 'v doc) list"
  quota_ok :: "(string \<times> 'v doc) list \<Rightarrow> bool"

definition getItem :: "string \<Rightarrow> 'v localStorage \<Rightarrow> 'v doc option" where
  "getItem key st = map_of (items st) key"

definition setItem :: "string \<Rightarrow> 'v doc \<Rightarrow> ('v localStorage, unit) io" where
  "setItem key d =
     (\<lambda>st. let xs = AList.update key d (items st)
           in if quota_ok st xs then (Inr (), st\<lparr>items := xs\<rparr>)
              else (Inl QuotaExceededError, st))"

definition removeItem :: "string \<Rightarrow> 'v localStorage \<Rightarrow> 'v localStorage" where
  "removeItem key st = st\<lparr>items := AList.delete key (items st)\<rparr>"

definition storage_clear :: "'v localStorage \<Rightarrow> 'v localStorage" where
  "storage_clear st = st\<lparr>items := []\<rparr>"

record LocalStorageAdapter =
  ls_prefix :: string
  ls_maxSize :: enat
  ls_accessOrderKey :: string

text \<open>\<open>options?.prefix || 'cache:'\<close>: the empty prefix is falsy.\<close>

definition LocalStorageAdapter_new :: "CacheOptions \<Rightarrow> string option \<Rightarrow> LocalStorageAdapter" where
  "LocalStorageAdapter_new options pfx =
     (let p = (case pfx of None \<Rightarrow> ''cache:'' | Some q \<Rightarrow> if q = [] then ''cache:'' else q)
      in \<lparr>ls_prefix = p, ls_maxSize = resolve_maxSize options,
          ls_accessOrderKey = p @ ''__access_order''\<rparr>)"

definition ls_getFullKey :: "LocalStorageAdapter \<Rightarrow> string \<Rightarrow> string" where
  "ls_getFullKey A key = ls_prefix A @ key"

text \<open>
  \<^verbatim>\<open>try { const order = localStorage.getItem(this.accessOrderKey);
        return order ? JSON.parse(order) : []; } catch { return []; }\<close>
\<close>

definition ls_getAccessOrder :: "LocalStorageAdapter \<Rightarrow> 'v localStorage \<Rightarrow> string list option" where
  "ls_getAccessOrder A st =
     (case getItem (ls_accessOrderKey A) st of
        None \<Rightarrow> Some []
      | Some EmptyText \<Rightarrow> Some []
      | Some Garbage \<Rightarrow> Some []
      | Some (OrderDoc ks) \<Rightarrow> Some ks
      | Some (EntryDoc entry) \<Rightarrow> None)"

definition ls_setAccessOrder :: "LocalStorageAdapter \<Rightarrow> string list \<Rightarrow> ('v localStorage, unit) io" where
  "ls_setAccessOrder A order = setItem (ls_accessOrderKey A) (OrderDoc order)"

definition ls_removeFromStorage :: "LocalStorageAdapter \<Rightarrow> string \<Rightarrow> ('v localStorage, unit) io" where
  "ls_removeFromStorage A key =
     (\<lambda>st. let st1 = removeItem (ls_getFullKey A key) st
           in io_bind (as_array (ls_getAccessOrder A st1))
                (\<lambda>order. ls_setAccessOrder A (filter (\<lambda>k. k \<noteq> key) order)) st1)"

text \<open>
  \<^verbatim>\<open>
  const order = this.getAccessOrder().filter(k => k !== key);
  order.push(key);
  if (order.length > this.maxSize) {
    const oldestKey = order.shift();
    if (oldestKey) { this.removeFromStorage(oldestKey); }
  }
  this.setAccessOrder(order);\<close>
  After the push the array is not empty, so \<open>shift\<close> takes its head.
\<close>

definition ls_updateAccessOrder :: "LocalStorageAdapter \<Rightarrow> string \<Rightarrow> ('v localStorage, unit) io" where
  "ls_updateAccessOrder A key =
     (\<lambda>st. io_bind (as_array (ls_getAccessOrder A st))
        (\<lambda>order0.
           let order = filter (\<lambda>k. k \<noteq> key) order0 @ [key]
           in if enat (length order) > ls_maxSize A
              then (let oldestKey = hd order; rest = tl order
                    in io_bind (if oldestKey \<noteq> [] then ls_removeFromStorage A oldestKey
                                else io_return ())
                         (\<lambda>_. ls_setAccessOrder A rest))
              else ls_setAccessOrder A order) st)"

text \<open>
  The loop of \<open>cleanup\<close> over the keys of the namespace, with the local array
  \<open>accessOrder\<close> it extends:
  \<^verbatim>\<open>
  try {
    const raw = localStorage.getItem(this.getFullKey(key));
    if (raw) {
      const entry = JSON.parse(raw);
      if (this.isExpired(entry)) { this.removeFromStorage(key); }
      else { validKeys.push(key); if (!accessOrder.includes(key)) accessOrder.push(key); }
    }
  } catch { this.removeFromStorage(key); }\<close>
\<close>

definition ls_cleanup_key ::
  "LocalStorageAdapter \<Rightarrow> int \<Rightarrow> string \<Rightarrow> string list \<Rightarrow> ('v localStorage, string list) io" where
  "ls_cleanup_key A now key accessOrder =
     io_catch
       (\<lambda>st. case getItem (ls_getFullKey A key) st of
                None \<Rightarrow> (Inr accessOrder, st)
              | Some EmptyText \<Rightarrow> (Inr accessOrder, st)
              | Some raw \<Rightarrow>
                  (case parse_entry raw of
                     None \<Rightarrow> (Inl SyntaxError, st)
                   | Some entry \<Rightarrow>
                       if isExpired now entry
                       then io_bind (ls_removeFromStorage A key) (\<lambda>_. io_return accessOrder) st
                       else (Inr (if key \<in> set accessOrder then accessOrder
                                  else accessOrder @ [key]), st)))
       (io_bind (ls_removeFromStorage A key) (\<lambda>_. io_return accessOrder))"

fun ls_cleanup_scan ::
  "LocalStorageAdapter \<Rightarrow> int \<Rightarrow> string list \<Rightarrow> string list \<Rightarrow> ('v localStorage, string list) io" where
  "ls_cleanup_scan A now [] accessOrder = io_return accessOrder"
| "ls_cleanup_scan A now (key # keys) accessOrder =
     io_bind (ls_cleanup_key A now key accessOrder) (\<lambda>order. ls_cleanup_scan A now keys order)"

text \<open>
  \<^verbatim>\<open>
  while (accessOrder.length > this.maxSize) {
    const oldestKey = accessOrder.shift();
    if (oldestKey) { this.removeFromStorage(oldestKey); }
  }\<close>
\<close>

fun ls_evict_excess :: "LocalStorageAdapter \<Rightarrow> string list \<Rightarrow> ('v localStorage, string list) io" where
  "ls_evict_excess A [] = io_return []"
| "ls_evict_excess A (oldestKey # rest) =
     (if enat (length (oldestKey # rest)) > ls_maxSize A
      then io_bind (if oldestKey \<noteq> [] then ls_removeFromStorage A oldestKey else io_return ())
             (\<lambda>_. ls_evict_excess A rest)
      else io_return (oldestKey # rest))"

text \<open>
  \<open>cleanup\<close>: the keys of the namespace are the stored keys that start with the
  prefix, the access-order key apart, with the prefix cut off.
\<close>

definition ls_cleanup :: "LocalStorageAdapter \<Rightarrow> int \<Rightarrow> ('v localStorage, unit) io" where
  "ls_cleanup A now =
     (\<lambda>st. let allKeys = map (drop (length (ls_prefix A)))
                           (filter (\<lambda>key. prefix (ls_prefix A) key \<and> key \<noteq> ls_accessOrderKey A)
                              (map fst (items st)))
           in io_bind (as_array (ls_getAccessOrder A st))
                (\<lambda>order0.
                   io_bind (ls_cleanup_scan A now allKeys (filter (\<lambda>key. key \<in> set allKeys) order0))
                     (\<lambda>order1.
                        io_bind (ls_evict_excess A order1)
                          (\<lambda>order2. ls_setAccessOrder A order2))) st)"

text \<open>
  The public operations run on the global \<open>localStorage\<close>, which may not exist
  (\<open>typeof localStorage === 'undefined'\<close>): the environment is \<open>None\<close> then, and
  \<open>get\<close>, \<open>set\<close>, \<open>delete\<close> and \<open>clear\<close> return at once.
\<close>

definition ls_guard ::
  "'a \<Rightarrow> ('v localStorage, 'a) io \<Rightarrow> ('v localStorage option, 'a) io" where
  "ls_guard d m =
     (\<lambda>env. case env of
              None \<Rightarrow> (Inr d, None)
            | Some st \<Rightarrow> (case m st of (r, st') \<Rightarrow> (r, Some st')))"

definition ls_get ::
  "LocalStorageAdapter \<Rightarrow> string \<Rightarrow> int \<Rightarrow> ('v localStorage option, 'v js) io" where
  "ls_get A key now =
     ls_guard Undefined
       (\<lambda>st. case getItem (ls_getFullKey A key) st of
                None \<Rightarrow> (Inr Undefined, st)
              | Some EmptyText \<Rightarrow> (Inr Undefined, st)
              | Some raw \<Rightarrow>
                  io_catch
                    (case parse_entry raw of
                       None \<Rightarrow> io_throw SyntaxError
                     | Some entry \<Rightarrow>
                         if isExpired now entry
                         then io_bind (ls_removeFromStorage A key) (\<lambda>_. io_return Undefined)
                         else io_bind (ls_updateAccessOrder A key)
                                (\<lambda>_. io_return (entry_value entry)))
                    (io_bind (ls_removeFromStorage A key) (\<lambda>_. io_return Undefined)) st)"

text \<open>
  \<^verbatim>\<open>
  try { localStorage.setItem(this.getFullKey(key), JSON.stringify(entry));
        this.updateAccessOrder(key); }
  catch { await this.cleanup();
          localStorage.setItem(this.getFullKey(key), JSON.stringify(entry));
          this.updateAccessOrder(key); }\<close>
\<close>

definition ls_set ::
  "LocalStorageAdapter \<Rightarrow> string \<Rightarrow> 'v js \<Rightarrow> CacheOptions \<Rightarrow> int \<Rightarrow>
   ('v localStorage option, unit) io" where
  "ls_set A key v options now =
     ls_guard ()
       (let entry = new_entry now v options;
            attempt = io_bind (setItem (ls_getFullKey A key) (EntryDoc entry))
                        (\<lambda>_. ls_updateAccessOrder A key)
        in io_catch attempt (io_bind (ls_cleanup A now) (\<lambda>_. attempt)))"

definition ls_delete :: "LocalStorageAdapter \<Rightarrow> string \<Rightarrow> ('v localStorage option, unit) io" where
  "ls_delete A key = ls_guard () (ls_removeFromStorage A key)"

text \<open>
  \<open>clear\<close> removes the keys that start with the prefix, then the access-order key,
  then calls \<open>localStorage.clear()\<close>.
\<close>

definition ls_clear :: "LocalStorageAdapter \<Rightarrow> ('v localStorage option, unit) io" where
  "ls_clear A =
     ls_guard ()
       (\<lambda>st. let keys = filter (\<lambda>key. prefix (ls_prefix A) key) (map fst (items st));
                st1 = fold removeItem keys st;
                st2 = removeItem (ls_accessOrderKey A) st1
            in (Inr (), storage_clear st2))"

text \<open>\<open>has\<close>: \<^verbatim>\<open>const value = await this.get(key); return value !== undefined;\<close>\<close>

definition ls_has ::
  "LocalStorageAdapter \<Rightarrow> string \<Rightarrow> int \<Rightarrow> ('v localStorage option, bool) io" where
  "ls_has A key now = io_bind (ls_get A key now) (\<lambda>v. io_return (v \<noteq> Undefined))"

section \<open>The persistent file adapter (FileSystemAdapter)\<close>

text \<open>
  The state is the adapter's directory: \<open>None\<close> while it does not exist, else its
  regular files by name, in the order \<open>readdir\<close> lists them (a new file is listed
  last). A file operation fails only with \<open>ENOENT\<close>. \<open>path.join(directory, name)\<close>
  names the file \<open>name\<close> of the directory.
\<close>

type_synonym 'v directory = "(string \<times> 'v doc) list option"

definition fs_readFile :: "string \<Rightarrow> ('v directory, 'v doc) io" where
  "fs_readFile name =
     (\<lambda>dir. case dir of
              None \<Rightarrow> (Inl ENOENT, dir)
            | Some files \<Rightarrow>
                (case map_of files name of
                   None \<Rightarrow> (Inl ENOENT, dir)
                 | Some content \<Rightarrow> (Inr content, dir)))"

definition fs_writeFile :: "string \<Rightarrow> 'v doc \<Rightarrow> ('v directory, unit) io" where
  "fs_writeFile name content =
     (\<lambda>dir. case dir of
              None \<Rightarrow> (Inl ENOENT, dir)
            | Some files \<Rightarrow> (Inr (), Some (AList.update name content files)))"

definition fs_unlink :: "string \<Rightarrow> ('v directory, unit) io" where
  "fs_unlink name =
     (\<lambda>dir. case dir of
              None \<Rightarrow> (Inl ENOENT, dir)
            | Some files \<Rightarrow>
                (case map_of files name of
                   None \<Rightarrow> (Inl ENOENT, dir)
                 | Some content \<Rightarrow> (Inr (), Some (AList.delete name files))))"

definition fs_readdir :: "('v directory, string list) io" where
  "fs_readdir =
     (\<lambda>dir. case dir of
              None \<Rightarrow> (Inl ENOENT, dir)
            | Some files \<Rightarrow> (Inr (map fst files), dir))"

text \<open>
  \<open>md5hex\<close> is \<open>crypto.createHash('md5').update(key).digest('hex')\<close>, a function of
  the key that the adapter takes from the platform.
\<close>

record FileSystemAdapter =
  fs_maxSize :: enat
  md5hex :: "string \<Rightarrow> string"

definition FileSystemAdapter_new :: "CacheOptions \<Rightarrow> (string \<Rightarrow> string) \<Rightarrow> FileSystemAdapter" where
  "FileSystemAdapter_new options h = \<lparr>fs_maxSize = resolve_maxSize options, md5hex = h\<rparr>"

definition accessOrderFile :: string where
  "accessOrderFile = ''__access_order.json''"

definition fs_getFilePath :: "FileSystemAdapter \<Rightarrow> string \<Rightarrow> string" where
  "fs_getFilePath A key = md5hex A key @ ''.json''"

text \<open>\<^verbatim>\<open>try { await fs.access(dir); } catch { await fs.mkdir(dir, { recursive: true }); }\<close>\<close>

definition fs_ensureDirectory :: "('v directory, unit) io" where
  "fs_ensureDirectory =
     (\<lambda>dir. case dir of None \<Rightarrow> (Inr (), Some []) | Some files \<Rightarrow> (Inr (), dir))"

text \<open>
  \<^verbatim>\<open>try { const content = await fs.readFile(this.accessOrderFile, 'utf-8');
        return JSON.parse(content); } catch { return []; }\<close>
\<close>

definition fs_getAccessOrder :: "'v directory \<Rightarrow> string list option" where
  "fs_getAccessOrder dir =
     (case fst (fs_readFile accessOrderFile dir) of
        Inl e \<Rightarrow> Some []
      | Inr EmptyText \<Rightarrow> Some []
      | Inr Garbage \<Rightarrow> Some []
      | Inr (OrderDoc ks) \<Rightarrow> Some ks
      | Inr (EntryDoc entry) \<Rightarrow> None)"

definition fs_setAccessOrder :: "string list \<Rightarrow> ('v directory, unit) io" where
  "fs_setAccessOrder order =
     io_bind fs_ensureDirectory (\<lambda>_. fs_writeFile accessOrderFile (OrderDoc order))"

definition fs_updateAccessOrder :: "string \<Rightarrow> ('v directory, unit) io" where
  "fs_updateAccessOrder key =
     (\<lambda>dir. io_bind (as_array (fs_getAccessOrder dir))
        (\<lambda>order0. fs_setAccessOrder (filter (\<lambda>k. k \<noteq> key) order0 @ [key])) dir)"

text \<open>
  \<open>file.replace('.json', '')\<close>: the first occurrence of the pattern is replaced.
\<close>

fun replace_first :: "string \<Rightarrow> string \<Rightarrow> string \<Rightarrow> string" where
  "replace_first pat rep [] = (if pat = [] then rep else [])"
| "replace_first pat rep (c # cs) =
     (if prefix pat (c # cs) then rep @ drop (length pat) (c # cs)
      else c # replace_first pat rep cs)"

text \<open>
  The loop of \<open>cleanup\<close> over the files of the directory, the access-order file
  apart, with the array \<open>validKeys\<close> it builds:
  \<^verbatim>\<open>
  try {
    const content = await fs.readFile(filePath, 'utf-8');
    const entry = JSON.parse(content);
    if (this.isExpired(entry)) { await fs.unlink(filePath); }
    else { const key = file.replace('.json', ''); validKeys.push(key); }
  } catch { await fs.unlink(filePath); }\<close>
\<close>

definition fs_cleanup_file :: "int \<Rightarrow> string \<Rightarrow> string list \<Rightarrow> ('v directory, string list) io" where
  "fs_cleanup_file now file validKeys =
     io_catch
       (io_bind (fs_readFile file)
          (\<lambda>content.
             case parse_entry content of
               None \<Rightarrow> io_throw SyntaxError
             | Some entry \<Rightarrow>
                 if isExpired now entry
                 then io_bind (fs_unlink file) (\<lambda>_. io_return validKeys)
                 else io_return (validKeys @ [replace_first ''.json'' [] file])))
       (io_bind (fs_unlink file) (\<lambda>_. io_return validKeys))"

fun fs_cleanup_scan :: "int \<Rightarrow> string list \<Rightarrow> string list \<Rightarrow> ('v directory, string list) io" where
  "fs_cleanup_scan now [] validKeys = io_return validKeys"
| "fs_cleanup_scan now (file # files) validKeys =
     io_bind (fs_cleanup_file now file validKeys) (\<lambda>keys. fs_cleanup_scan now files keys)"

text \<open>
  \<^verbatim>\<open>validKeys.forEach(key => { if (!updatedOrder.includes(key)) updatedOrder.push(key); });\<close>
\<close>

definition add_missing :: "string list \<Rightarrow> string list \<Rightarrow> string list" where
  "add_missing validKeys updatedOrder =
     fold (\<lambda>key order. if key \<in> set order then order else order @ [key]) validKeys updatedOrder"

text \<open>
  \<^verbatim>\<open>
  while (updatedOrder.length > this.maxSize) {
    const oldestKey = updatedOrder.shift();
    if (oldestKey) { try { await fs.unlink(path.join(dir, `${oldestKey}.json`)); } catch {} }
  }\<close>
\<close>

fun fs_evict_excess :: "FileSystemAdapter \<Rightarrow> string list \<Rightarrow> ('v directory, string list) io" where
  "fs_evict_excess A [] = io_return []"
| "fs_evict_excess A (oldestKey # rest) =
     (if enat (length (oldestKey # rest)) > fs_maxSize A
      then io_bind (if oldestKey \<noteq> []
                    then io_catch (fs_unlink (oldestKey @ ''.json'')) (io_return ())
                    else io_return ())
             (\<lambda>_. fs_evict_excess A rest)
      else io_return (oldestKey # rest))"

definition fs_cleanup :: "FileSystemAdapter \<Rightarrow> int \<Rightarrow> ('v directory, unit) io" where
  "fs_cleanup A now =
     io_bind fs_ensureDirectory
       (\<lambda>_. io_bind fs_readdir
          (\<lambda>files dir.
             let accessOrder = fs_getAccessOrder dir
             in io_bind (fs_cleanup_scan now (filter (\<lambda>f. f \<noteq> accessOrderFile) files) [])
                  (\<lambda>validKeys.
                     io_bind (as_array accessOrder)
                       (\<lambda>order0.
                          io_bind (fs_evict_excess A
                                     (add_missing validKeys
                                        (filter (\<lambda>key. key \<in> set validKeys) order0)))
                            (\<lambda>updatedOrder. fs_setAccessOrder updatedOrder))) dir))"

text \<open>
  \<open>get\<close>: everything after \<open>ensureDirectory\<close> is inside one \<open>try\<close> whose handler
  returns \<open>undefined\<close>.
\<close>

definition fs_get :: "FileSystemAdapter \<Rightarrow> string \<Rightarrow> int \<Rightarrow> ('v directory, 'v js) io" where
  "fs_get A key now =
     io_bind fs_ensureDirectory
       (\<lambda>_. io_catch
          (io_bind (fs_readFile (fs_getFilePath A key))
             (\<lambda>content.
                case parse_entry content of
                  None \<Rightarrow> io_throw SyntaxError
                | Some entry \<Rightarrow>
                    if isExpired now entry
                    then io_bind (fs_unlink (fs_getFilePath A key))
                           (\<lambda>_ dir. io_bind (as_array (fs_getAccessOrder dir))
                              (\<lambda>order0.
                                 io_bind (fs_setAccessOrder (filter (\<lambda>k. k \<noteq> key) order0))
                                   (\<lambda>_. io_return Undefined)) dir)
                    else io_bind (fs_updateAccessOrder key)
                           (\<lambda>_. io_return (entry_value entry))))
          (io_return Undefined))"

text \<open>
  The eviction inside \<open>set\<close>:
  \<^verbatim>\<open>
  const currentOrder = await this.getAccessOrder();
  if (!currentOrder.includes(key) && currentOrder.length >= this.maxSize) {
    const oldestKey = currentOrder.shift();
    if (oldestKey) {
      try { await fs.unlink(path.join(dir, `${oldestKey}.json`)); } catch {}
      await this.setAccessOrder(currentOrder);
    }
  }\<close>
  \<open>shift\<close> of an empty array gives \<open>undefined\<close>.
\<close>

definition fs_evict_for :: "FileSystemAdapter \<Rightarrow> string \<Rightarrow> ('v directory, unit) io" where
  "fs_evict_for A key =
     (\<lambda>dir. io_bind (as_array (fs_getAccessOrder dir))
        (\<lambda>currentOrder.
           if key \<notin> set currentOrder \<and> enat (length currentOrder) \<ge> fs_maxSize A
           then (case currentOrder of
                   [] \<Rightarrow> io_return ()
                 | oldestKey # rest \<Rightarrow>
                     if oldestKey \<noteq> []
                     then io_bind (io_catch (fs_unlink (oldestKey @ ''.json'')) (io_return ()))
                            (\<lambda>_. fs_setAccessOrder rest)
                     else io_return ())
           else io_return ()) dir)"

definition fs_set ::
  "FileSystemAdapter \<Rightarrow> string \<Rightarrow> 'v js \<Rightarrow> CacheOptions \<Rightarrow> int \<Rightarrow> ('v directory, unit) io" where
  "fs_set A key v options now =
     io_bind (fs_cleanup A now)
       (\<lambda>_. io_bind (fs_evict_for A key)
          (\<lambda>_. io_bind (fs_writeFile (fs_getFilePath A key) (EntryDoc (new_entry now v options)))
             (\<lambda>_. fs_updateAccessOrder key)))"

definition fs_delete :: "FileSystemAdapter \<Rightarrow> string \<Rightarrow> ('v directory, unit) io" where
  "fs_delete A key =
     io_catch
       (io_bind (fs_unlink (fs_getFilePath A key))
          (\<lambda>_ dir. io_bind (as_array (fs_getAccessOrder dir))
             (\<lambda>order0. fs_setAccessOrder (filter (\<lambda>k. k \<noteq> key) order0)) dir))
       (io_return ())"

text \<open>
  \<open>clear\<close>: \<open>Promise.all\<close> starts every \<open>unlink\<close> and rejects when one of them
  fails; the others still run.
\<close>

fun fs_unlink_all :: "string list \<Rightarrow> ('v directory, unit) io" where
  "fs_unlink_all [] = io_return ()"
| "fs_unlink_all (file # files) =
     (\<lambda>dir. case fs_unlink file dir of
              (Inl e, dir1) \<Rightarrow> (Inl e, snd (fs_unlink_all files dir1))
            | (Inr u, dir1) \<Rightarrow> fs_unlink_all files dir1)"

definition fs_clear :: "('v directory, unit) io" where
  "fs_clear =
     io_catch
       (io_bind fs_readdir
          (\<lambda>files. io_bind (fs_unlink_all files) (\<lambda>_. fs_setAccessOrder [])))
       (io_return ())"

definition fs_has :: "FileSystemAdapter \<Rightarrow> string \<Rightarrow> int \<Rightarrow> ('v directory, bool) io" where
  "fs_has A key now = io_bind (fs_get A key now) (\<lambda>v. io_return (v \<noteq> Undefined))"

section \<open>Auxiliary notions for the statements\<close>

text \<open>The keys whose entries \<open>cleanup\<close> finds expired.\<close>

definition expired_keys :: "int \<Rightarrow> (string \<times> 'v CacheEntry) list \<Rightarrow> string list" where
  "expired_keys now xs = map fst (filter (\<lambda>(k, e). isExpired now e) xs)"

text \<open>
  The consistent states of the volatile adapter: the access order lists the stored
  keys once each, none of them the empty string, and the store is within its bound.
\<close>

definition mem_inv :: "'v MemoryAdapter \<Rightarrow> bool" where
  "mem_inv s \<longleftrightarrow>
     distinct (map fst (mem_store s)) \<and> distinct (mem_accessOrder s) \<and>
     set (mem_accessOrder s) = fst ` set (mem_store s) \<and>
     enat (length (mem_store s)) \<le> mem_maxSize s \<and>
     [] \<notin> set (mem_accessOrder s) \<and> mem_maxSize s \<noteq> 0"

definition memo_ok :: "'v MemoryAdapter \<times> nat \<Rightarrow> bool" where
  "memo_ok st \<longleftrightarrow>
     mem_inv (fst st) \<and> (\<forall>p \<in> set (mem_store (fst st)). entry_value (snd p) = Undefined)"

text \<open>
  Two states of the store agree on the keys of \<open>K\<close> (and have the same quota); a
  computation is framed on \<open>K\<close> when it never changes what is stored under a key of
  \<open>K\<close>, whether it returns or throws.
\<close>

definition ls_frame_on :: "string set \<Rightarrow> 'v localStorage \<Rightarrow> 'v localStorage \<Rightarrow> bool" where
  "ls_frame_on K st st' \<longleftrightarrow>
     (\<forall>k \<in> K. getItem k st' = getItem k st) \<and> quota_ok st' = quota_ok st"

definition ls_framed_on :: "string set \<Rightarrow> ('v localStorage, 'a) io \<Rightarrow> bool" where
  "ls_framed_on K m \<longleftrightarrow> (\<forall>st. ls_frame_on K st (snd (m st)))"

text \<open>The keys of the backing store outside the adapter's namespace.\<close>

definition foreign_keys :: "LocalStorageAdapter \<Rightarrow> string set" where
  "foreign_keys A = {k. \<not> prefix (ls_prefix A) k}"

definition ls_env_frame ::
  "LocalStorageAdapter \<Rightarrow> 'v localStorage option \<Rightarrow> 'v localStorage option \<Rightarrow> bool" where
  "ls_env_frame A env env' \<longleftrightarrow>
     (case env of
        None \<Rightarrow> env' = None
      | Some st \<Rightarrow>
          (case env' of None \<Rightarrow> False | Some st' \<Rightarrow> ls_frame_on (foreign_keys A) st st'))"

text \<open>An adapter as its constructor builds it.\<close>

definition ls_wf :: "LocalStorageAdapter \<Rightarrow> bool" where
  "ls_wf A \<longleftrightarrow> ls_accessOrderKey A = ls_prefix A @ ''__access_order''"

text \<open>\<open>K\<close> holds no key of the adapter's namespace.\<close>

definition ls_outside :: "LocalStorageAdapter \<Rightarrow> string set \<Rightarrow> bool" where
  "ls_outside A K \<longleftrightarrow> ls_accessOrderKey A \<notin> K \<and> (\<forall>x. ls_getFullKey A x \<notin> K)"

section \<open>Sequences of operations\<close>

text \<open>
  The five operations of a \<open>StorageAdapter\<close> and what the caller observes of each.
  A run applies operations one after the other (single writer), each at its own time.
\<close>

datatype 'v op = Get string | Set string "'v js" CacheOptions | Delete string | Clear | Has string

datatype 'v reply = Got "'v js" | Done | Answer bool | Raised error

fun mem_step :: "'v op \<Rightarrow> int \<Rightarrow> 'v MemoryAdapter \<Rightarrow> ('v reply \<times> 'v MemoryAdapter) option" where
  "mem_step (Get key) now s = (case mem_get key now s of (v, s') \<Rightarrow> Some (Got v, s'))"
| "mem_step (Set key v options) now s = map_option (Pair Done) (mem_set key v options now s)"
| "mem_step (Delete key) now s = Some (Done, mem_delete key s)"
| "mem_step Clear now s = Some (Done, mem_clear s)"
| "mem_step (Has key) now s = (case mem_has key now s of (b, s') \<Rightarrow> Some (Answer b, s'))"

fun mem_run ::
  "(int \<times> 'v op) list \<Rightarrow> 'v MemoryAdapter \<Rightarrow> ('v reply list \<times> 'v MemoryAdapter) option" where
  "mem_run [] s = Some ([], s)"
| "mem_run ((now, c) # cs) s =
     (case mem_step c now s of
        None \<Rightarrow> None
      | Some (r, s1) \<Rightarrow>
          (case mem_run cs s1 of None \<Rightarrow> None | Some (rs, s2) \<Rightarrow> Some (r # rs, s2)))"

definition reply_of :: "('a \<Rightarrow> 'v reply) \<Rightarrow> (error + 'a) \<times> 's \<Rightarrow> 'v reply \<times> 's" where
  "reply_of f r = (case fst r of Inl e \<Rightarrow> Raised e | Inr x \<Rightarrow> f x, snd r)"

fun ls_step ::
  "LocalStorageAdapter \<Rightarrow> 'v op \<Rightarrow> int \<Rightarrow> 'v localStorage option \<Rightarrow>
   'v reply \<times> 'v localStorage option" where
  "ls_step A (Get key) now env = reply_of Got (ls_get A key now env)"
| "ls_step A (Set key v options) now env = reply_of (\<lambda>u. Done) (ls_set A key v options now env)"
| "ls_step A (Delete key) now env = reply_of (\<lambda>u. Done) (ls_delete A key env)"
| "ls_step A Clear now env = reply_of (\<lambda>u. Done) (ls_clear A env)"
| "ls_step A (Has key) now env = reply_of Answer (ls_has A key now env)"

fun ls_run ::
  "LocalStorageAdapter \<Rightarrow> (int \<times> 'v op) list \<Rightarrow> 'v localStorage option \<Rightarrow>
   'v reply list \<times> 'v localStorage option" where
  "ls_run A [] env = ([], env)"
| "ls_run A ((now, c) # cs) env =
     (case ls_step A c now env of
        (r, env1) \<Rightarrow> (case ls_run A cs env1 of (rs, env2) \<Rightarrow> (r # rs, env2)))"

fun fs_step ::
  "FileSystemAdapter \<Rightarrow> 'v op \<Rightarrow> int \<Rightarrow> 'v directory \<Rightarrow> 'v reply \<times> 'v directory" where
  "fs_step A (Get key) now dir = reply_of Got (fs_get A key now dir)"
| "fs_step A (Set key v options) now dir = reply_of (\<lambda>u. Done) (fs_set A key v options now dir)"
| "fs_step A (Delete key) now dir = reply_of (\<lambda>u. Done) (fs_delete A key dir)"
| "fs_step A Clear now dir = reply_of (\<lambda>u. Done) (fs_clear dir)"
| "fs_step A (Has key) now dir = reply_of Answer (fs_has A key now dir)"

fun fs_run ::
  "FileSystemAdapter \<Rightarrow> (int \<times> 'v op) list \<Rightarrow> 'v directory \<Rightarrow> 'v reply list \<times> 'v directory" where
  "fs_run A [] dir = ([], dir)"
| "fs_run A ((now, c) # cs) dir =
     (case fs_step A c now dir of
        (r, dir1) \<Rightarrow> (case fs_run A cs dir1 of (rs, dir2) \<Rightarrow> (r # rs, dir2)))"

text \<open>
  The store accepts every write, and the access-order document is absent, unreadable
  or an array.
\<close>

definition ls_ok :: "LocalStorageAdapter \<Rightarrow> 'v localStorage \<Rightarrow> bool" where
  "ls_ok A st \<longleftrightarrow> (\<forall>xs. quota_ok st xs) \<and> ls_getAccessOrder A st \<noteq> None"

text \<open>The items of the store as a map.\<close>

definition ls_map :: "'v localStorage \<Rightarrow> string \<Rightarrow> 'v doc option" where
  "ls_map st = map_of (items st)"

text \<open>The access order an adapter reads when the document is an array or unreadable.\<close>

definition ls_order :: "LocalStorageAdapter \<Rightarrow> 'v localStorage \<Rightarrow> string list" where
  "ls_order A st = (case ls_getAccessOrder A st of None \<Rightarrow> [] | Some ks \<Rightarrow> ks)"

text \<open>
  A file that \<open>cleanup\<close> keeps: it is in the directory, it parses, and its entry has
  not expired.
\<close>

definition fs_alive :: "int \<Rightarrow> (string \<times> 'v doc) list \<Rightarrow> string \<Rightarrow> bool" where
  "fs_alive now files f =
     (case map_of files f of
        None \<Rightarrow> False
      | Some content \<Rightarrow>
          (case parse_entry content of None \<Rightarrow> False | Some entry \<Rightarrow> \<not> isExpired now entry))"

text \<open>
  The consistent directories: file names are listed once, and the access-order file
  is absent, unreadable or an array.
\<close>

definition fs_inv :: "'v directory \<Rightarrow> bool" where
  "fs_inv dir \<longleftrightarrow>
     (case dir of None \<Rightarrow> True | Some files \<Rightarrow> distinct (map fst files)) \<and>
     fs_getAccessOrder dir \<noteq> None"

text \<open>The files of the directory as a map, and the access order the adapter reads.\<close>

definition fs_map :: "'v directory \<Rightarrow> string \<Rightarrow> 'v doc option" where
  "fs_map dir = (case dir of None \<Rightarrow> Map.empty | Some files \<Rightarrow> map_of files)"

definition fs_order :: "'v directory \<Rightarrow> string list" where
  "fs_order dir = (case fs_getAccessOrder dir of None \<Rightarrow> [] | Some ks \<Rightarrow> ks)"

text \<open>
  What \<open>cleanup\<close> computes from the files of the directory: the names it scans, the
  keys it takes from the surviving files, the files it keeps, and the order it
  reconciles from the stored one.
\<close>

definition fs_names :: "(string \<times> 'v doc) list \<Rightarrow> string list" where
  "fs_names files = filter (\<lambda>f. f \<noteq> accessOrderFile) (map fst files)"

definition fs_validKeys :: "int \<Rightarrow> (string \<times> 'v doc) list \<Rightarrow> string list" where
  "fs_validKeys now files =
     map (replace_first ''.json'' []) (filter (fs_alive now files) (fs_names files))"

definition fs_survivors :: "int \<Rightarrow> (string \<times> 'v doc) list \<Rightarrow> (string \<times> 'v doc) list" where
  "fs_survivors now files =
     filter (\<lambda>p. fst p = accessOrderFile \<or> fs_alive now files (fst p)) files"

definition fs_reconciled :: "int \<Rightarrow> (string \<times> 'v doc) list \<Rightarrow> string list \<Rightarrow> string list" where
  "fs_reconciled now files order0 =
     add_missing (fs_validKeys now files)
       (filter (\<lambda>key. key \<in> set (fs_validKeys now files)) order0)"

definition fs_files :: "'v directory \<Rightarrow> (string \<times> 'v doc) list" where
  "fs_files dir = (case dir of None \<Rightarrow> [] | Some files \<Rightarrow> files)"




section \<open>The cache without a bound, as the specification describes it\<close>

text \<open>
  With no capacity bound the specification describes a map from keys to entries
  with time-based expiry: every key that was set is retrievable until it is deleted,
  cleared or expired; \<open>has(key)\<close> is \<open>get(key) !== miss\<close>. This is that map, written
  from the specification, to compare the adapters with.
\<close>

definition live_at :: "int \<Rightarrow> 'v CacheEntry option \<Rightarrow> 'v CacheEntry option" where
  "live_at now x = (case x of None \<Rightarrow> None | Some e \<Rightarrow> if isExpired now e then None else Some e)"

definition ideal_lookup :: "int \<Rightarrow> (string \<Rightarrow> 'v CacheEntry option) \<Rightarrow> string \<Rightarrow> 'v js" where
  "ideal_lookup now m key = (case live_at now (m key) of None \<Rightarrow> Undefined | Some e \<Rightarrow> entry_value e)"

fun ideal_step ::
  "'v op \<Rightarrow> int \<Rightarrow> (string \<Rightarrow> 'v CacheEntry option) \<Rightarrow>
   'v reply \<times> (string \<Rightarrow> 'v CacheEntry option)" where
  "ideal_step (Get key) now m = (Got (ideal_lookup now m key), m)"
| "ideal_step (Set key v options) now m = (Done, m(key \<mapsto> new_entry now v options))"
| "ideal_step (Delete key) now m = (Done, m(key := None))"
| "ideal_step Clear now m = (Done, (\<lambda>k. None))"
| "ideal_step (Has key) now m = (Answer (ideal_lookup now m key \<noteq> Undefined), m)"

fun ideal_run ::
  "(int \<times> 'v op) list \<Rightarrow> (string \<Rightarrow> 'v CacheEntry option) \<Rightarrow>
   'v reply list \<times> (string \<Rightarrow> 'v CacheEntry option)" where
  "ideal_run [] m = ([], m)"
| "ideal_run ((now, c) # cs) m =
     (case ideal_step c now m of
        (r, m1) \<Rightarrow> (case ideal_run cs m1 of (rs, m2) \<Rightarrow> (r # rs, m2)))"

text \<open>The keys an operation names, and the sequences whose \<open>set\<close>s store a value.\<close>

fun op_keys :: "'v op \<Rightarrow> string set" where
  "op_keys (Get key) = {key}"
| "op_keys (Set key v options) = {key}"
| "op_keys (Delete key) = {key}"
| "op_keys Clear = {}"
| "op_keys (Has key) = {key}"

fun stores_value :: "'v op \<Rightarrow> bool" where
  "stores_value (Set key v options) = (v \<noteq> Undefined)"
| "stores_value c = True"

text \<open>
  Two maps agree from a time on when, at every later time, they hold the same live
  entry under every key of \<open>K\<close>.
\<close>

definition agree_on ::
  "string set \<Rightarrow> int \<Rightarrow> (string \<Rightarrow> 'v CacheEntry option) \<Rightarrow> (string \<Rightarrow> 'v CacheEntry option) \<Rightarrow> bool" where
  "agree_on K t a m \<longleftrightarrow> (\<forall>t' \<ge> t. \<forall>k \<in> K. live_at t' (a k) = live_at t' (m k))"

text \<open>
  The volatile adapter without a bound: the entries as a map, and the states the
  runs below go through (no bound, distinct keys, no stored \<open>undefined\<close>).
\<close>

definition mem_abs :: "'v MemoryAdapter \<Rightarrow> string \<Rightarrow> 'v CacheEntry option" where
  "mem_abs s = map_of (mem_store s)"

definition mem_unb :: "'v MemoryAdapter \<Rightarrow> bool" where
  "mem_unb s \<longleftrightarrow>
     mem_maxSize s = \<infinity> \<and> distinct (map fst (mem_store s)) \<and>
     (\<forall>p \<in> set (mem_store s). entry_value (snd p) \<noteq> Undefined)"

text \<open>The times of a run do not go back: each operation is no earlier than the one before.\<close>

fun nondecreasing :: "int \<Rightarrow> (int \<times> 'a) list \<Rightarrow> bool" where
  "nondecreasing t [] = True"
| "nondecreasing t ((now, c) # cs) = (t \<le> now \<and> nondecreasing now cs)"

text \<open>
  The key/value adapter without a bound: the entries of the namespace as a map, the
  keys other than the reserved one, and the states the runs below go through.
\<close>

definition ls_abs :: "LocalStorageAdapter \<Rightarrow> 'v localStorage \<Rightarrow> string \<Rightarrow> 'v CacheEntry option" where
  "ls_abs A st key =
     (case ls_map st (ls_getFullKey A key) of Some (EntryDoc e) \<Rightarrow> Some e | _ \<Rightarrow> None)"

definition plain_keys :: "string set" where
  "plain_keys = {key. key \<noteq> ''__access_order''}"

definition ls_unb :: "LocalStorageAdapter \<Rightarrow> 'v localStorage \<Rightarrow> bool" where
  "ls_unb A st \<longleftrightarrow> ls_ok A st \<and> ls_wf A \<and> ls_maxSize A = \<infinity>"

text \<open>
  The file adapter without a bound: the entries as a map from keys, through the file
  of each key; the sets of keys whose hashes are distinct and none the name of the
  access-order file; and the states the runs below go through.
\<close>

definition fs_abs :: "FileSystemAdapter \<Rightarrow> 'v directory \<Rightarrow> string \<Rightarrow> 'v CacheEntry option" where
  "fs_abs B dir key =
     (case fs_map dir (fs_getFilePath B key) of Some (EntryDoc e) \<Rightarrow> Some e | _ \<Rightarrow> None)"

definition fs_keys_ok :: "FileSystemAdapter \<Rightarrow> string set \<Rightarrow> bool" where
  "fs_keys_ok B K \<longleftrightarrow> inj_on (md5hex B) K \<and> (\<forall>k \<in> K. md5hex B k \<noteq> ''__access_order'')"

definition fs_unb :: "FileSystemAdapter \<Rightarrow> 'v directory \<Rightarrow> bool" where
  "fs_unb B dir \<longleftrightarrow> fs_inv dir \<and> fs_maxSize B = \<infinity>"

text \<open>
  A series of \<open>set\<close> calls, each with its time, key and value, made with the same
  options; the entries they write; and the last \<open>n\<close> elements of a list.
\<close>

definition set_calls :: "CacheOptions \<Rightarrow> (int \<times> string \<times> 'v) list \<Rightarrow> (int \<times> 'v op) list" where
  "set_calls opts ins = map (\<lambda>(t, k, v). (t, Set k (Val v) opts)) ins"

definition written :: "CacheOptions \<Rightarrow> (int \<times> string \<times> 'v) list \<Rightarrow> (string \<times> 'v CacheEntry) list" where
  "written opts ins = map (\<lambda>(t, k, v). (k, new_entry t (Val v) opts)) ins"

definition last_n :: "nat \<Rightarrow> 'a list \<Rightarrow> 'a list" where
  "last_n n xs = drop (length xs - n) xs"

text \<open>
  The key/value adapter holds the entries \<open>xs\<close>, in the order of its access order:
  the store accepts writes, the access order is the keys of \<open>xs\<close>, and under every
  key other than the reserved one the store has the entry of \<open>xs\<close>, or nothing.
\<close>

definition ls_holds :: "LocalStorageAdapter \<Rightarrow> 'v localStorage \<Rightarrow> (string \<times> 'v CacheEntry) list \<Rightarrow> bool" where
  "ls_holds A st xs \<longleftrightarrow>
     ls_ok A st \<and> ls_order A st = map fst xs \<and>
     (\<forall>k. k \<noteq> ''__access_order'' \<longrightarrow>
          ls_map st (ls_getFullKey A k) = map_option EntryDoc (map_of xs k))"

section \<open>The volatile adapter: cleanup, invariant, totality of set\<close>

lemma delete_filter: "AList.delete k xs = filter (\<lambda>p. fst p \<noteq> k) xs"
  by (induction xs) auto

lemma fold_purge:
  "fold (\<lambda>(key, entry) st. if isExpired now entry then mem_remove key st else st) xs st =
     st\<lparr>mem_store := filter (\<lambda>p. fst p \<notin> set (expired_keys now xs)) (mem_store st),
        mem_accessOrder := filter (\<lambda>k. k \<notin> set (expired_keys now xs)) (mem_accessOrder st)\<rparr>"
proof (induction xs arbitrary: st)
  case Nil
  then show ?case by (simp add: expired_keys_def)
next
  case (Cons x xs)
  obtain k e where x: "x = (k, e)" by (cases x)
  show ?case
    by (simp add: x Cons.IH expired_keys_def mem_remove_def delete_filter)
qed

lemma mem_purge_store:
  "distinct (map fst (mem_store s)) \<Longrightarrow>
   mem_store (mem_purge now s) = filter (\<lambda>(k, e). \<not> isExpired now e) (mem_store s)"
  unfolding mem_purge_def Let_def fold_purge
  apply simp
  apply (rule filter_cong, simp)
  apply (auto simp: expired_keys_def dest: eq_key_imp_eq_value)
  done

lemma mem_purge_order:
  "mem_accessOrder (mem_purge now s) =
     filter (\<lambda>k. k \<in> fst ` set (mem_store s) \<and> k \<notin> set (expired_keys now (mem_store s)))
       (mem_accessOrder s)"
  unfolding mem_purge_def Let_def fold_purge
  by (simp add: conj_commute)

lemma mem_purge_maxSize: "mem_maxSize (mem_purge now s) = mem_maxSize s"
  unfolding mem_purge_def Let_def fold_purge by simp

lemma mem_evict_loop_done:
  "\<not> (enat (length (mem_store s)) > mem_maxSize s \<and> length (mem_accessOrder s) > 0) \<Longrightarrow>
   mem_evict_loop s = Some s"
  by (subst mem_evict_loop.simps) auto

lemma mem_inv_new: "mem_inv (MemoryAdapter_new options)"
  by (simp add: mem_inv_def MemoryAdapter_new_def resolve_maxSize_def zero_enat_def split: option.splits)

lemma le_enat_trans_length:
  "enat (length xs) \<le> m \<Longrightarrow> enat (length (filter P xs)) \<le> m"
  by (meson enat_ord_simps(1) length_filter_le order_trans)

lemma mem_inv_purge: "mem_inv s \<Longrightarrow> mem_inv (mem_purge now s)"
  unfolding mem_inv_def
  apply (simp add: mem_purge_store mem_purge_order mem_purge_maxSize distinct_map_filter le_enat_trans_length)
  apply (auto simp: expired_keys_def dest: eq_key_imp_eq_value)
  done

lemma mem_cleanup_inv: "mem_inv s \<Longrightarrow> mem_cleanup now s = Some (mem_purge now s)"
  unfolding mem_cleanup_def
  by (rule mem_evict_loop_done) (use mem_inv_purge[of s now] in \<open>auto simp: mem_inv_def\<close>)

lemma length_delete_distinct:
  "distinct (map fst xs) \<Longrightarrow> k \<in> fst ` set xs \<Longrightarrow> Suc (length (AList.delete k xs)) = length xs"
  by (induction xs) (auto simp: rev_image_eqI)

lemma length_update_new:
  "map_of xs k = None \<Longrightarrow> length (AList.update k v xs) = Suc (length xs)"
  by (induction xs) (auto split: if_splits)

lemma length_update_old:
  "map_of xs k \<noteq> None \<Longrightarrow> length (AList.update k v xs) = length xs"
  by (induction xs) (auto split: if_splits)

lemma mem_inv_evict_for:
  assumes "mem_inv s"
  shows "distinct (map fst (mem_store (mem_evict_for key s)))"
    and "distinct (mem_accessOrder (mem_evict_for key s))"
    and "set (mem_accessOrder (mem_evict_for key s)) = fst ` set (mem_store (mem_evict_for key s))"
    and "[] \<notin> set (mem_accessOrder (mem_evict_for key s))"
    and "mem_maxSize (mem_evict_for key s) = mem_maxSize s"
    and "map_of (mem_store (mem_evict_for key s)) key = None \<Longrightarrow>
           enat (Suc (length (mem_store (mem_evict_for key s)))) \<le> mem_maxSize s"
    and "enat (length (mem_store (mem_evict_for key s))) \<le> mem_maxSize s"
proof -
  show "mem_maxSize (mem_evict_for key s) = mem_maxSize s"
    by (simp add: mem_evict_for_def split: list.splits)
  consider (evict) k0 rest where "mem_accessOrder s = k0 # rest" "k0 \<noteq> []"
      "enat (length (mem_store s)) \<ge> mem_maxSize s" "map_of (mem_store s) key = None"
      "mem_evict_for key s = s\<lparr>mem_store := AList.delete k0 (mem_store s), mem_accessOrder := rest\<rparr>"
    | (keep) "mem_evict_for key s = s"
      "map_of (mem_store s) key = None \<Longrightarrow> enat (length (mem_store s)) < mem_maxSize s"
  proof (cases "enat (length (mem_store s)) \<ge> mem_maxSize s \<and> map_of (mem_store s) key = None")
    case True
    with assms have "mem_store s \<noteq> []"
      by (auto simp: mem_inv_def zero_enat_def)
    with assms have "mem_accessOrder s \<noteq> []"
      by (auto simp: mem_inv_def)
    then obtain k0 rest where o: "mem_accessOrder s = k0 # rest"
      by (cases "mem_accessOrder s") auto
    with assms have "k0 \<noteq> []" by (auto simp: mem_inv_def)
    with o True show ?thesis
      by (intro evict[of k0 rest]) (auto simp: mem_evict_for_def)
  next
    case False
    then show ?thesis
      by (intro keep) (auto simp: mem_evict_for_def)
  qed
  note cases = this
  have keys_delete: "fst ` set (AList.delete k xs) = fst ` set xs - {k}" for k and xs :: "(string \<times> 'a CacheEntry) list"
    by (auto simp: delete_filter)
  show "distinct (map fst (mem_store (mem_evict_for key s)))"
    using assms by (cases rule: cases) (auto simp: mem_inv_def distinct_delete)
  show "distinct (mem_accessOrder (mem_evict_for key s))"
    using assms by (cases rule: cases) (auto simp: mem_inv_def)
  show "set (mem_accessOrder (mem_evict_for key s)) = fst ` set (mem_store (mem_evict_for key s))"
    using assms by (cases rule: cases) (auto simp: mem_inv_def keys_delete)
  show "[] \<notin> set (mem_accessOrder (mem_evict_for key s))"
    using assms by (cases rule: cases) (auto simp: mem_inv_def)
  show "enat (length (mem_store (mem_evict_for key s))) \<le> mem_maxSize s"
    using assms
    by (cases rule: cases) (auto simp: mem_inv_def delete_filter le_enat_trans_length)
  show "enat (Suc (length (mem_store (mem_evict_for key s)))) \<le> mem_maxSize s"
    if "map_of (mem_store (mem_evict_for key s)) key = None"
  proof (cases rule: cases)
    case (evict k0 rest)
    have "k0 \<in> fst ` set (mem_store s)"
      using assms evict(1) by (auto simp: mem_inv_def)
    then have "Suc (length (AList.delete k0 (mem_store s))) = length (mem_store s)"
      using assms by (intro length_delete_distinct) (auto simp: mem_inv_def)
    then show ?thesis
      using assms evict by (simp add: mem_inv_def)
  next
    case keep
    then show ?thesis using that by (simp add: Suc_ile_eq)
  qed
qed

lemma mem_set_unfold:
  "mem_inv s \<Longrightarrow>
   mem_set key v options now s =
     Some (mem_updateAccessOrder key
       ((mem_evict_for key (mem_purge now s))
          \<lparr>mem_store := AList.update key (new_entry now v options)
                          (mem_store (mem_evict_for key (mem_purge now s)))\<rparr>))"
  by (simp add: mem_set_def mem_cleanup_inv Let_def)

lemma mem_set_inv:
  assumes "mem_inv s" and "key \<noteq> []" and "mem_set key v options now s = Some s'"
  shows "mem_inv s'"
proof -
  define e where "e = mem_evict_for key (mem_purge now s)"
  have p: "mem_inv (mem_purge now s)" using assms(1) by (rule mem_inv_purge)
  note f = mem_inv_evict_for[OF p, of key, folded e_def]
  have s': "s' = mem_updateAccessOrder key
       (e\<lparr>mem_store := AList.update key (new_entry now v options) (mem_store e)\<rparr>)"
    using assms(3) by (simp add: mem_set_unfold[OF assms(1)] e_def)
  have len: "enat (length (AList.update key (new_entry now v options) (mem_store e))) \<le> mem_maxSize s"
  proof (cases "map_of (mem_store e) key")
    case None
    then show ?thesis using f(6) by (simp add: length_update_new mem_purge_maxSize)
  next
    case (Some a)
    then show ?thesis using f(7) by (simp add: length_update_old mem_purge_maxSize)
  qed
  have m: "mem_maxSize s \<noteq> 0" using assms(1) by (simp add: mem_inv_def)
  show ?thesis
    unfolding s' mem_inv_def mem_updateAccessOrder_def
    using f(1-5) len m assms(2)
    by (auto simp: distinct_update dom_update mem_purge_maxSize)
qed

lemma mem_set_total:
  "mem_inv s \<Longrightarrow> \<exists>s'. mem_set key v options now s = Some s'"
  by (simp add: mem_set_unfold)

lemma mem_inv_remove: "mem_inv s \<Longrightarrow> mem_inv (mem_remove key s)"
  unfolding mem_inv_def mem_remove_def
  by (auto simp: delete_filter distinct_map_filter le_enat_trans_length)

lemma mem_inv_updateAccessOrder:
  "mem_inv s \<Longrightarrow> key \<in> fst ` set (mem_store s) \<Longrightarrow> key \<noteq> [] \<Longrightarrow> mem_inv (mem_updateAccessOrder key s)"
  unfolding mem_inv_def mem_updateAccessOrder_def by auto

lemma mem_get_inv:
  assumes "mem_inv s" and "key \<noteq> []"
  shows "mem_inv (snd (mem_get key now s))"
proof (cases "map_of (mem_store s) key")
  case None
  then show ?thesis using assms by (simp add: mem_get_def)
next
  case (Some e)
  then have "key \<in> fst ` set (mem_store s)"
    by (metis map_of_SomeD fst_conv rev_image_eqI)
  then show ?thesis
    using Some assms by (simp add: mem_get_def mem_inv_remove mem_inv_updateAccessOrder)
qed

lemma mem_has_inv: "mem_inv s \<Longrightarrow> mem_inv (snd (mem_has key now s))"
  by (auto simp: mem_has_def mem_inv_remove split: option.splits)

lemma mem_delete_inv: "mem_inv s \<Longrightarrow> mem_inv (mem_delete key s)"
  by (simp add: mem_delete_def mem_inv_remove)

lemma mem_clear_inv: "mem_inv s \<Longrightarrow> mem_inv (mem_clear s)"
  by (simp add: mem_clear_def mem_inv_def zero_enat_def[symmetric])

lemma mem_set_lookup:
  "mem_set key v options now s = Some s' \<Longrightarrow>
   map_of (mem_store s') key = Some (new_entry now v options)"
  by (auto simp: mem_set_def Let_def mem_updateAccessOrder_def update_conv' split: option.splits)

lemma mem_get_undefined_store:
  "\<forall>p \<in> set (mem_store s). entry_value (snd p) = Undefined \<Longrightarrow> fst (mem_get key now s) = Undefined"
  by (auto simp: mem_get_def split: option.splits dest!: map_of_SomeD)

lemma mem_remove_values:
  "\<forall>p \<in> set (mem_store s). P (snd p) \<Longrightarrow> \<forall>p \<in> set (mem_store (mem_remove key s)). P (snd p)"
  by (auto simp: mem_remove_def delete_filter)

lemma mem_get_values:
  "\<forall>p \<in> set (mem_store s). P (snd p) \<Longrightarrow> \<forall>p \<in> set (mem_store (snd (mem_get key now s))). P (snd p)"
  by (auto simp: mem_get_def mem_remove_def delete_filter mem_updateAccessOrder_def split: option.splits)

lemma set_update_subset: "set (AList.update k v xs) \<subseteq> insert (k, v) (set xs)"
  by (induction xs) auto

lemma mem_evict_for_subset: "set (mem_store (mem_evict_for key s)) \<subseteq> set (mem_store s)"
  by (auto simp: mem_evict_for_def delete_filter split: list.splits)

lemma mem_purge_subset: "set (mem_store (mem_purge now s)) \<subseteq> set (mem_store s)"
  unfolding mem_purge_def Let_def fold_purge by auto

lemma mem_set_values:
  assumes "mem_inv s" and "mem_set key v options now s = Some s'"
    and "\<forall>p \<in> set (mem_store s). P (snd p)" and "P (new_entry now v options)"
  shows "\<forall>p \<in> set (mem_store s'). P (snd p)"
proof -
  have "mem_store s' = AList.update key (new_entry now v options)
                         (mem_store (mem_evict_for key (mem_purge now s)))"
    using assms(2) by (auto simp: mem_set_unfold[OF assms(1)] mem_updateAccessOrder_def)
  then have a: "set (mem_store s') \<subseteq>
      insert (key, new_entry now v options) (set (mem_store (mem_evict_for key (mem_purge now s))))"
    by (simp add: set_update_subset)
  have b: "set (mem_store (mem_evict_for key (mem_purge now s))) \<subseteq> set (mem_store s)"
    by (rule subset_trans[OF mem_evict_for_subset mem_purge_subset])
  have "set (mem_store s') \<subseteq> insert (key, new_entry now v options) (set (mem_store s))"
    using a b by auto
  then show ?thesis using assms(3,4) by auto
qed

lemma memo_call_undefined:
  assumes "memo_ok st" and "fn args = Undefined" and "keyResolver args \<noteq> []"
  shows "\<exists>c. memo_call fn keyResolver options now args st = Some (Undefined, c, Suc (snd st)) \<and> memo_ok (c, Suc (snd st))"
proof -
  obtain r c1 where g: "mem_get (keyResolver args) now (fst st) = (r, c1)"
    by (cases "mem_get (keyResolver args) now (fst st)")
  have r: "r = Undefined"
    using mem_get_undefined_store[of "fst st" "keyResolver args" now] assms(1) g
    by (simp add: memo_ok_def)
  have c1: "mem_inv c1" "\<forall>p \<in> set (mem_store c1). entry_value (snd p) = Undefined"
    using mem_get_inv[of "fst st" "keyResolver args" now] g assms(1,3)
      mem_get_values[of "fst st" "\<lambda>e. entry_value e = Undefined" "keyResolver args" now]
    by (simp_all add: memo_ok_def)
  obtain c2 where s: "mem_set (keyResolver args) Undefined options now c1 = Some c2"
    using mem_set_total[OF c1(1)] by blast
  have "mem_inv c2" using mem_set_inv[OF c1(1) assms(3) s] .
  moreover have "\<forall>p \<in> set (mem_store c2). entry_value (snd p) = Undefined"
    using mem_set_values[OF c1(1) s, of "\<lambda>e. entry_value e = Undefined"] c1(2)
    by (simp add: new_entry_def)
  ultimately show ?thesis
    using g r s assms(2) by (simp add: memo_call_def memo_ok_def)
qed

lemma memo_run_undefined:
  assumes "\<forall>c \<in> set calls. fn (snd c) = Undefined \<and> keyResolver (snd c) \<noteq> []" and "memo_ok st"
  shows "\<exists>c. memo_run fn keyResolver options calls st =
           Some (replicate (length calls) Undefined, c, snd st + length calls)"
  using assms
proof (induction calls arbitrary: st)
  case Nil
  then show ?case by (cases st) simp
next
  case (Cons x calls)
  obtain now args where x: "x = (now, args)" by (cases x)
  from Cons.prems x obtain c where
    c: "memo_call fn keyResolver options now args st = Some (Undefined, c, Suc (snd st))"
       "memo_ok (c, Suc (snd st))"
    using memo_call_undefined[of st fn args keyResolver options now] by auto
  from Cons.IH[OF _ c(2)] Cons.prems(1) obtain c' where
    "memo_run fn keyResolver options calls (c, Suc (snd st)) =
       Some (replicate (length calls) Undefined, c', Suc (snd st) + length calls)"
    by auto
  then show ?case using c(1) x by simp
qed

section \<open>Computations that may throw\<close>

lemma io_return_apply: "io_return x s = (Inr x, s)"
  by (simp add: io_return_def)

lemma io_throw_apply: "io_throw e s = (Inl e, s)"
  by (simp add: io_throw_def)

lemma io_bind_apply:
  "io_bind m f s = (case m s of (Inl e, s') \<Rightarrow> (Inl e, s') | (Inr x, s') \<Rightarrow> f x s')"
  by (simp add: io_bind_def)

lemma io_catch_apply:
  "io_catch m h s = (case m s of (Inl e, s') \<Rightarrow> h s' | (Inr x, s') \<Rightarrow> (Inr x, s'))"
  by (simp add: io_catch_def)

lemmas io_simps = io_return_apply io_throw_apply io_bind_apply io_catch_apply


section \<open>The persistent adapters: has through get\<close>

lemma ls_has_eq:
  "ls_has A key now env =
     (case ls_get A key now env of
        (Inl e, env') \<Rightarrow> (Inl e, env')
      | (Inr v, env') \<Rightarrow> (Inr (v \<noteq> Undefined), env'))"
  by (simp add: ls_has_def io_simps split: prod.splits sum.splits)

lemma fs_get_returns: "\<exists>v dir'. fs_get A key now dir = (Inr v, dir')"
  by (auto simp: fs_get_def io_simps fs_ensureDirectory_def split: option.splits sum.splits prod.splits)

lemma fs_has_eq:
  "fs_has A key now dir =
     (case fs_get A key now dir of
        (Inl e, dir') \<Rightarrow> (Inl e, dir')
      | (Inr v, dir') \<Rightarrow> (Inr (v \<noteq> Undefined), dir'))"
  by (simp add: fs_has_def io_simps split: prod.splits sum.splits)

section \<open>C10: a stored undefined reads as a miss\<close>

text \<open>
  C10. After \<open>set(k, undefined)\<close> on the volatile adapter, \<open>get(k)\<close> returns
  \<open>undefined\<close>, exactly what it returns once the key is deleted, while \<open>has(k)\<close>
  returns true. Consequently a memoized function whose result is \<open>undefined\<close> is
  invoked again on every call: after any series of such calls on a fresh wrapper the
  number of invocations is the number of calls (the keys being non-empty, every call
  returns).
\<close>

theorem C10_undefined_reads_as_miss:
  fixes fn :: "'a \<Rightarrow> 'v js" and s :: "'v MemoryAdapter"
  shows
    "(mem_set k Undefined options now s = Some s' \<and>
      \<not> isExpired now' (new_entry now (Undefined :: 'v js) options) \<longrightarrow>
        fst (mem_get k now' s') = Undefined \<and> fst (mem_has k now' s') \<and>
        fst (mem_get k now' (mem_delete k s')) = Undefined) \<and>
     ((\<forall>c \<in> set calls. fn (snd c) = Undefined \<and> keyResolver (snd c) \<noteq> []) \<longrightarrow>
        (\<exists>cache. memo_run fn keyResolver options calls (MemoryAdapter_new options, 0) =
           Some (replicate (length calls) Undefined, cache, length calls)))"
proof (intro conjI impI)
  assume a: "mem_set k Undefined options now s = Some s' \<and>
      \<not> isExpired now' (new_entry now (Undefined :: 'v js) options)"
  then have l: "map_of (mem_store s') k = Some (new_entry now Undefined options)"
    by (auto dest: mem_set_lookup)
  show "fst (mem_get k now' s') = Undefined"
    using a l by (simp add: mem_get_def new_entry_def)
  show "fst (mem_has k now' s')"
    using a l by (simp add: mem_has_def)
  show "fst (mem_get k now' (mem_delete k s')) = Undefined"
    by (simp add: mem_get_def mem_delete_def mem_remove_def delete_conv')
next
  assume "\<forall>c \<in> set calls. fn (snd c) = Undefined \<and> keyResolver (snd c) \<noteq> []"
  moreover have "memo_ok (MemoryAdapter_new options :: 'v MemoryAdapter, 0)"
    by (simp add: memo_ok_def mem_inv_new) (simp add: MemoryAdapter_new_def)
  ultimately show "\<exists>cache. memo_run fn keyResolver options calls (MemoryAdapter_new options, 0) =
           Some (replicate (length calls) Undefined, cache, length calls)"
    using memo_run_undefined[of calls fn keyResolver "(MemoryAdapter_new options, 0)" options]
    by simp
qed

theorem C10_undefined_reads_as_miss_witness:
  "\<exists>s' :: nat MemoryAdapter.
     mem_set ''k'' Undefined no_options 0 (MemoryAdapter_new no_options) = Some s' \<and>
     fst (mem_get ''k'' 5 s') = Undefined \<and> fst (mem_has ''k'' 5 s') \<and>
     (\<exists>cache. memo_run (\<lambda>a :: nat. (Undefined :: nat js)) (\<lambda>a. ''k'') no_options
         [(0, 1), (5, 1)] (MemoryAdapter_new no_options, 0) =
       Some ([Undefined, Undefined], cache, 2))"
proof -
  obtain s' :: "nat MemoryAdapter" where
    s': "mem_set ''k'' Undefined no_options 0 (MemoryAdapter_new no_options) = Some s'"
    using mem_set_total[OF mem_inv_new] by blast
  have e: "\<not> isExpired 5 (new_entry 0 (Undefined :: nat js) no_options)"
    by (simp add: isExpired_def new_entry_def no_options_def)
  show ?thesis
    using s' e
      C10_undefined_reads_as_miss[where k = "''k''" and options = no_options and now = 0
        and s = "MemoryAdapter_new no_options" and s' = s' and now' = 5
        and calls = "[(0, 1), (5, 1)]" and fn = "\<lambda>a :: nat. (Undefined :: nat js)"
        and keyResolver = "\<lambda>a. ''k''"]
    by (simp add: numeral_2_eq_2)
qed

section \<open>C8: the namespace of the key/value adapter\<close>

lemma ls_frame_on_refl: "ls_frame_on K st st"
  by (simp add: ls_frame_on_def)

lemma ls_frame_on_trans: "ls_frame_on K st st1 \<Longrightarrow> ls_frame_on K st1 st2 \<Longrightarrow> ls_frame_on K st st2"
  by (simp add: ls_frame_on_def)

lemma ls_framed_on_return: "ls_framed_on K (io_return x)"
  by (simp add: ls_framed_on_def io_simps ls_frame_on_refl)

lemma ls_framed_on_throw: "ls_framed_on K (io_throw e)"
  by (simp add: ls_framed_on_def io_simps ls_frame_on_refl)

lemma ls_framed_on_bind:
  assumes "ls_framed_on K m" and "\<And>x. ls_framed_on K (f x)"
  shows "ls_framed_on K (io_bind m f)"
  unfolding ls_framed_on_def
proof
  fix st
  obtain r st1 where m: "m st = (r, st1)" by (cases "m st")
  have 1: "ls_frame_on K st st1" using assms(1) m by (auto simp: ls_framed_on_def dest: spec[of _ st])
  show "ls_frame_on K st (snd (io_bind m f st))"
  proof (cases r)
    case (Inl e)
    then show ?thesis using m 1 by (simp add: io_simps)
  next
    case (Inr x)
    have "ls_frame_on K st1 (snd (f x st1))" using assms(2)[of x] by (simp add: ls_framed_on_def)
    then show ?thesis using m 1 Inr by (auto simp: io_simps intro: ls_frame_on_trans)
  qed
qed

lemma ls_framed_on_catch:
  assumes "ls_framed_on K m" and "ls_framed_on K h"
  shows "ls_framed_on K (io_catch m h)"
  unfolding ls_framed_on_def
proof
  fix st
  obtain r st1 where m: "m st = (r, st1)" by (cases "m st")
  have 1: "ls_frame_on K st st1" using assms(1) m by (auto simp: ls_framed_on_def dest: spec[of _ st])
  show "ls_frame_on K st (snd (io_catch m h st))"
  proof (cases r)
    case (Inl e)
    have "ls_frame_on K st1 (snd (h st1))" using assms(2) by (simp add: ls_framed_on_def)
    then show ?thesis using m 1 Inl by (auto simp: io_simps intro: ls_frame_on_trans)
  next
    case (Inr x)
    then show ?thesis using m 1 by (simp add: io_simps)
  qed
qed

lemma ls_framed_on_state:
  "(\<And>st. ls_framed_on K (m st)) \<Longrightarrow> ls_framed_on K (\<lambda>st. m st st)"
  by (simp add: ls_framed_on_def)

lemma ls_framed_on_as_array: "ls_framed_on K (as_array x)"
  by (cases x) (simp_all add: as_array_def ls_framed_on_return ls_framed_on_throw)

lemma ls_framed_on_setItem: "k \<notin> K \<Longrightarrow> ls_framed_on K (setItem k d)"
  by (auto simp: ls_framed_on_def ls_frame_on_def setItem_def Let_def getItem_def update_conv')

lemma ls_frame_on_removeItem: "k \<notin> K \<Longrightarrow> ls_frame_on K st (removeItem k st)"
  by (auto simp: ls_frame_on_def removeItem_def getItem_def delete_conv')

lemma ls_framed_on_setAccessOrder:
  "ls_accessOrderKey A \<notin> K \<Longrightarrow> ls_framed_on K (ls_setAccessOrder A order)"
  by (simp add: ls_setAccessOrder_def ls_framed_on_setItem)

lemma ls_framed_onD: "ls_framed_on K m \<Longrightarrow> ls_frame_on K st (snd (m st))"
  by (simp add: ls_framed_on_def)

lemma ls_framed_on_bind_array:
  assumes "\<And>st x. ls_framed_on K (f st x)"
  shows "ls_framed_on K (\<lambda>st. io_bind (as_array (g st)) (f st) st)"
  unfolding ls_framed_on_def
proof
  fix st
  have "ls_framed_on K (io_bind (as_array (g st)) (f st))"
    by (intro ls_framed_on_bind ls_framed_on_as_array assms)
  then show "ls_frame_on K st (snd (io_bind (as_array (g st)) (f st) st))"
    by (rule ls_framed_onD)
qed

lemma ls_framed_on_removeFromStorage:
  assumes "ls_accessOrderKey A \<notin> K" and "ls_getFullKey A key \<notin> K"
  shows "ls_framed_on K (ls_removeFromStorage A key)"
  unfolding ls_framed_on_def
proof
  fix st :: "'a localStorage"
  let ?st1 = "removeItem (ls_getFullKey A key) st"
  have 1: "ls_frame_on K st ?st1"
    by (rule ls_frame_on_removeItem) (rule assms(2))
  have "ls_framed_on K (io_bind (as_array (ls_getAccessOrder A ?st1))
                (\<lambda>order. ls_setAccessOrder A (filter (\<lambda>k. k \<noteq> key) order)) :: ('a localStorage, unit) io)"
    by (intro ls_framed_on_bind ls_framed_on_as_array ls_framed_on_setAccessOrder assms(1))
  then have "ls_frame_on K ?st1 (snd (ls_removeFromStorage A key st))"
    by (simp add: ls_framed_on_def ls_removeFromStorage_def Let_def)
  with 1 show "ls_frame_on K st (snd (ls_removeFromStorage A key st))"
    by (rule ls_frame_on_trans)
qed

lemma hd_filter_append_neq:
  "Suc 0 < length (filter (\<lambda>k. k \<noteq> key) xs @ [key]) \<Longrightarrow>
   hd (filter (\<lambda>k. k \<noteq> key) xs @ [key]) \<noteq> key"
  by (cases "filter (\<lambda>k. k \<noteq> key) xs") (auto dest: filter_eq_ConsD)

lemma ls_framed_on_updateAccessOrder:
  assumes "ls_accessOrderKey A \<notin> K"
    and "\<And>x. x \<noteq> key \<Longrightarrow> ls_maxSize A \<noteq> \<infinity> \<Longrightarrow> ls_getFullKey A x \<notin> K"
    and "ls_maxSize A \<noteq> 0 \<or> ls_getFullKey A key \<notin> K"
  shows "ls_framed_on K (ls_updateAccessOrder A key)"
  unfolding ls_updateAccessOrder_def Let_def
proof (rule ls_framed_on_bind_array)
  fix st :: "'a localStorage" and order0 :: "string list"
  let ?order = "filter (\<lambda>k. k \<noteq> key) order0 @ [key]"
  show "ls_framed_on K
          (if ls_maxSize A < enat (length ?order)
           then io_bind (if hd ?order \<noteq> [] then ls_removeFromStorage A (hd ?order) else io_return ())
                  (\<lambda>_. ls_setAccessOrder A (tl ?order))
           else ls_setAccessOrder A ?order :: ('a localStorage, unit) io)"
  proof (cases "ls_maxSize A < enat (length ?order)")
    case False
    then show ?thesis by (simp add: ls_framed_on_setAccessOrder assms(1))
  next
    case True
    then have fin: "ls_maxSize A \<noteq> \<infinity>" by (cases "ls_maxSize A") auto
    have "ls_getFullKey A (hd ?order) \<notin> K"
    proof (cases "hd ?order = key")
      case False
      then show ?thesis using assms(2) fin by blast
    next
      case hk: True
      have "\<not> Suc 0 < length ?order" using hd_filter_append_neq[of key order0] hk by blast
      then have "length ?order = Suc 0" by simp
      with True have "ls_maxSize A = 0"
        by (cases "ls_maxSize A") (auto simp: zero_enat_def)
      with assms(3) hk show ?thesis by simp
    qed
    then show ?thesis
      using True
      by (auto intro!: ls_framed_on_bind ls_framed_on_setAccessOrder ls_framed_on_removeFromStorage
            ls_framed_on_return assms(1))
  qed
qed

lemma ls_outside_foreign: "ls_wf A \<Longrightarrow> ls_outside A (foreign_keys A)"
  by (simp add: ls_outside_def ls_wf_def foreign_keys_def ls_getFullKey_def)

lemma ls_framed_on_remove_then:
  "ls_outside A K \<Longrightarrow> ls_framed_on K (io_bind (ls_removeFromStorage A key) (\<lambda>_. io_return x))"
  by (intro ls_framed_on_bind ls_framed_on_removeFromStorage ls_framed_on_return)
     (simp_all add: ls_outside_def)

lemma ls_framed_on_cleanup_key:
  assumes "ls_outside A K"
  shows "ls_framed_on K (ls_cleanup_key A now key order)"
  unfolding ls_cleanup_key_def
proof (rule ls_framed_on_catch[OF _ ls_framed_on_remove_then[OF assms]], unfold ls_framed_on_def, rule allI)
  fix st :: "'a localStorage"
  note R = ls_framed_onD[OF ls_framed_on_remove_then[OF assms, of key order], of st]
  show "ls_frame_on K st (snd (case getItem (ls_getFullKey A key) st of
                None \<Rightarrow> (Inr order, st)
              | Some EmptyText \<Rightarrow> (Inr order, st)
              | Some raw \<Rightarrow>
                  (case parse_entry raw of
                     None \<Rightarrow> (Inl SyntaxError, st)
                   | Some entry \<Rightarrow>
                       if isExpired now entry
                       then io_bind (ls_removeFromStorage A key) (\<lambda>_. io_return order) st
                       else (Inr (if key \<in> set order then order
                                  else order @ [key]), st))))"
    using R by (simp add: ls_frame_on_refl split: option.splits doc.splits)
qed

lemma ls_framed_on_cleanup_scan:
  "ls_outside A K \<Longrightarrow> ls_framed_on K (ls_cleanup_scan A now keys order)"
proof (induction keys arbitrary: order)
  case Nil
  then show ?case by (simp add: ls_framed_on_return)
next
  case (Cons k keys)
  then show ?case
    by (simp add: ls_framed_on_bind ls_framed_on_cleanup_key)
qed

lemma ls_framed_on_evict_excess:
  "ls_outside A K \<Longrightarrow> ls_framed_on K (ls_evict_excess A order)"
proof (induction order)
  case Nil
  then show ?case by (simp add: ls_framed_on_return)
next
  case (Cons k order)
  then show ?case
    by (simp add: ls_framed_on_bind ls_framed_on_removeFromStorage ls_framed_on_return ls_outside_def)
qed

lemma ls_framed_on_cleanup: "ls_outside A K \<Longrightarrow> ls_framed_on K (ls_cleanup A now)"
  unfolding ls_cleanup_def Let_def
  by (intro ls_framed_on_bind_array ls_framed_on_bind ls_framed_on_cleanup_scan
        ls_framed_on_evict_excess ls_framed_on_setAccessOrder)
     (simp_all add: ls_outside_def)

lemma ls_framed_on_get_body:
  assumes "ls_outside A K"
  shows "ls_framed_on K (\<lambda>st. case getItem (ls_getFullKey A key) st of
                None \<Rightarrow> (Inr Undefined, st)
              | Some EmptyText \<Rightarrow> (Inr Undefined, st)
              | Some raw \<Rightarrow>
                  io_catch
                    (case parse_entry raw of
                       None \<Rightarrow> io_throw SyntaxError
                     | Some entry \<Rightarrow>
                         if isExpired now entry
                         then io_bind (ls_removeFromStorage A key) (\<lambda>_. io_return Undefined)
                         else io_bind (ls_updateAccessOrder A key)
                                (\<lambda>_. io_return (entry_value entry)))
                    (io_bind (ls_removeFromStorage A key) (\<lambda>_. io_return Undefined)) st)"
  unfolding ls_framed_on_def
proof
  fix st :: "'a localStorage"
  have "ls_framed_on K (io_catch
                    (case parse_entry raw of
                       None \<Rightarrow> io_throw SyntaxError
                     | Some entry \<Rightarrow>
                         if isExpired now entry
                         then io_bind (ls_removeFromStorage A key) (\<lambda>_. io_return Undefined)
                         else io_bind (ls_updateAccessOrder A key)
                                (\<lambda>_. io_return (entry_value entry)))
                    (io_bind (ls_removeFromStorage A key) (\<lambda>_. io_return Undefined))
          :: ('a localStorage, 'a js) io)" for raw :: "'a doc"
    using assms
    by (cases "parse_entry raw")
       (auto intro!: ls_framed_on_catch ls_framed_on_bind ls_framed_on_throw ls_framed_on_return
          ls_framed_on_removeFromStorage ls_framed_on_updateAccessOrder simp: ls_outside_def)
  note R = ls_framed_onD[OF this, where st = st]
  show "ls_frame_on K st (snd (case getItem (ls_getFullKey A key) st of
                None \<Rightarrow> (Inr Undefined, st)
              | Some EmptyText \<Rightarrow> (Inr Undefined, st)
              | Some raw \<Rightarrow>
                  io_catch
                    (case parse_entry raw of
                       None \<Rightarrow> io_throw SyntaxError
                     | Some entry \<Rightarrow>
                         if isExpired now entry
                         then io_bind (ls_removeFromStorage A key) (\<lambda>_. io_return Undefined)
                         else io_bind (ls_updateAccessOrder A key)
                                (\<lambda>_. io_return (entry_value entry)))
                    (io_bind (ls_removeFromStorage A key) (\<lambda>_. io_return Undefined)) st))"
  proof (cases "getItem (ls_getFullKey A key) st")
    case None
    then show ?thesis by (simp add: ls_frame_on_refl)
  next
    case (Some raw)
    then show ?thesis using R[of raw] by (cases raw) (simp_all add: ls_frame_on_refl)
  qed
qed

lemma ls_env_frame_guard:
  "ls_framed_on (foreign_keys A) m \<Longrightarrow> ls_env_frame A env (snd (ls_guard d m env))"
  by (cases env; cases "m (the env)")
     (auto simp: ls_env_frame_def ls_guard_def dest: ls_framed_onD[of _ m "the env"])

lemma ls_get_frame:
  assumes "ls_wf A"
  shows "ls_env_frame A env (snd (ls_get A key now env))"
  unfolding ls_get_def
  by (rule ls_env_frame_guard, rule ls_framed_on_get_body, rule ls_outside_foreign, rule assms)

lemma ls_set_frame:
  assumes "ls_wf A"
  shows "ls_env_frame A env (snd (ls_set A key v options now env))"
  unfolding ls_set_def Let_def
  using ls_outside_foreign[OF assms]
  by (intro ls_env_frame_guard ls_framed_on_catch ls_framed_on_bind ls_framed_on_setItem
        ls_framed_on_updateAccessOrder ls_framed_on_cleanup)
     (simp_all add: ls_outside_def)

lemma ls_delete_frame:
  assumes "ls_wf A"
  shows "ls_env_frame A env (snd (ls_delete A key env))"
  unfolding ls_delete_def
  using ls_outside_foreign[OF assms]
  by (intro ls_env_frame_guard ls_framed_on_removeFromStorage) (simp_all add: ls_outside_def)

lemma ls_has_frame:
  assumes "ls_wf A"
  shows "ls_env_frame A env (snd (ls_has A key now env))"
  using ls_get_frame[OF assms, of env key now]
  by (cases "ls_get A key now env"; cases "fst (ls_get A key now env)") (auto simp: ls_has_eq)

lemma ls_clear_empties:
  "\<exists>st'. ls_clear A (Some st) = (Inr (), Some st') \<and> items st' = []"
  by (auto simp: ls_clear_def ls_guard_def Let_def storage_clear_def)

lemma ls_wf_new: "ls_wf (LocalStorageAdapter_new options pfx)"
  by (simp add: ls_wf_def LocalStorageAdapter_new_def Let_def)

text \<open>
  What holds of the namespace: \<open>get\<close>, \<open>has\<close>, \<open>set\<close> and \<open>delete\<close> of the
  key/value adapter leave every key of the backing store that does not begin with the
  configured prefix unchanged, whether they return or throw.
\<close>

lemma operations_keep_foreign_keys:
  fixes env :: "'v localStorage option"
  assumes "A = LocalStorageAdapter_new options pfx"
  shows "ls_env_frame A env (snd (ls_get A key now env)) \<and>
         ls_env_frame A env (snd (ls_has A key now env)) \<and>
         ls_env_frame A env (snd (ls_set A key v opts now env)) \<and>
         ls_env_frame A env (snd (ls_delete A key env))"
  using ls_get_frame ls_has_frame ls_set_frame ls_delete_frame ls_wf_new[of options pfx] assms
  by blast

lemma set_keeps_a_foreign_key:
  "\<exists>st'. snd (ls_set (LocalStorageAdapter_new no_options None) ''a'' (Val (1::nat)) no_options 0
             (Some \<lparr>items = [(''other'', Garbage)], quota_ok = (\<lambda>xs. True)\<rparr>)) = Some st' \<and>
         getItem ''other'' st' = Some Garbage"
  using operations_keep_foreign_keys[where A = "LocalStorageAdapter_new no_options None"
      and options = no_options and pfx = None and key = "''a''" and v = "Val (1::nat)"
      and opts = no_options and now = 0
      and env = "Some \<lparr>items = [(''other'', Garbage)], quota_ok = (\<lambda>xs. True)\<rparr>"]
  by (auto simp: ls_env_frame_def ls_frame_on_def foreign_keys_def LocalStorageAdapter_new_def
        getItem_def split: option.splits)

text \<open>
  C8. \<open>clear()\<close> of the key/value adapter is to remove only the entries whose stored
  key begins with the configured prefix, and to leave every other key of the backing
  store unchanged. It does list and remove the keys with its prefix, but it ends with
  \<open>localStorage.clear()\<close>, which removes every item: in a store that holds the key
  \<open>other\<close>, which does not begin with the prefix \<open>cache:\<close>, beside the adapter's
  \<open>cache:a\<close>, that key is gone after \<open>clear()\<close>, and the store is empty.
\<close>

theorem C8_clear_removes_foreign_keys:
  "\<not> prefix (ls_prefix (LocalStorageAdapter_new no_options None)) ''other'' \<and>
   getItem ''other'' \<lparr>items = [(''other'', (Garbage :: nat doc)), (''cache:a'', Garbage)],
                       quota_ok = (\<lambda>xs. True)\<rparr> = Some Garbage \<and>
   fst (ls_clear (LocalStorageAdapter_new no_options None)
        (Some \<lparr>items = [(''other'', (Garbage :: nat doc)), (''cache:a'', Garbage)],
               quota_ok = (\<lambda>xs. True)\<rparr>)) = Inr () \<and>
   map_option (getItem ''other'')
     (snd (ls_clear (LocalStorageAdapter_new no_options None)
        (Some \<lparr>items = [(''other'', (Garbage :: nat doc)), (''cache:a'', Garbage)],
               quota_ok = (\<lambda>xs. True)\<rparr>))) = Some None \<and>
   map_option items
     (snd (ls_clear (LocalStorageAdapter_new no_options None)
        (Some \<lparr>items = [(''other'', (Garbage :: nat doc)), (''cache:a'', Garbage)],
               quota_ok = (\<lambda>xs. True)\<rparr>))) = Some []"
  by (simp add: LocalStorageAdapter_new_def getItem_def ls_clear_def ls_guard_def
      storage_clear_def Let_def)

section \<open>C1: reads and recency\<close>

lemma lru_read_renews_memory:
  "map_option fst (mem_run
     [(0, Set ''A'' (Val (1::nat)) no_options), (1, Set ''B'' (Val 2) no_options), (2, Get ''A''),
      (3, Set ''C'' (Val 3) no_options), (4, Get ''A''), (5, Get ''B''), (6, Get ''C'')]
     (MemoryAdapter_new \<lparr>ttl = None, maxSize = Some 2\<rparr>))
   = Some [Done, Done, Got (Val 1), Done, Got (Val 1), Got Undefined, Got (Val 3)]"
  by code_simp

lemma lru_read_renews_localStorage:
  "fst (ls_run (LocalStorageAdapter_new \<lparr>ttl = None, maxSize = Some 2\<rparr> None)
     [(0, Set ''A'' (Val (1::nat)) no_options), (1, Set ''B'' (Val 2) no_options), (2, Get ''A''),
      (3, Set ''C'' (Val 3) no_options), (4, Get ''A''), (5, Get ''B''), (6, Get ''C'')]
     (Some \<lparr>items = [], quota_ok = (\<lambda>xs. True)\<rparr>))
   = [Done, Done, Got (Val 1), Done, Got (Val 1), Got Undefined, Got (Val 3)] \<and>
   fst (ls_run (LocalStorageAdapter_new \<lparr>ttl = None, maxSize = Some 2\<rparr> None)
     [(0, Set ''A'' (Val (1::nat)) no_options), (1, Set ''B'' (Val 2) no_options), (2, Has ''A''),
      (3, Set ''C'' (Val 3) no_options), (4, Get ''A''), (5, Get ''B''), (6, Get ''C'')]
     (Some \<lparr>items = [], quota_ok = (\<lambda>xs. True)\<rparr>))
   = [Done, Done, Answer True, Done, Got (Val 1), Got Undefined, Got (Val 3)]"
  by code_simp

text \<open>
  C1. With \<open>maxSize = 2\<close>, after \<open>set(A)\<close>, \<open>set(B)\<close>, \<open>get(A)\<close> (a hit),
  \<open>set(C)\<close> the claim promises that B is evicted and that A and C remain. The file
  adapter does the opposite: its \<open>cleanup\<close> rebuilds the access order from the file
  names (the hashes), so the recency that \<open>get(A)\<close> recorded under the key is
  dropped, and \<open>set(C)\<close> evicts A (the oldest file) while B stays. On the volatile
  adapter a hit of \<open>has(A)\<close> does not renew the key either: after \<open>set(A)\<close>,
  \<open>set(B)\<close>, \<open>has(A)\<close>, \<open>set(C)\<close> it is A that is evicted. (\<open>md5hex\<close> is given
  here as a stand-in that maps the three keys to three distinct names.)
\<close>

theorem C1_file_adapter_evicts_the_key_just_read:
  "fst (fs_run (FileSystemAdapter_new \<lparr>ttl = None, maxSize = Some 2\<rparr> (\<lambda>k. ''0'' @ k))
     [(0, Set ''A'' (Val (1::nat)) no_options), (1, Set ''B'' (Val 2) no_options), (2, Get ''A''),
      (3, Set ''C'' (Val 3) no_options), (4, Get ''A''), (5, Get ''B''), (6, Get ''C'')] None)
   = [Done, Done, Got (Val 1), Done, Got Undefined, Got (Val 2), Got (Val 3)] \<and>
   map_option fst (mem_run
     [(0, Set ''A'' (Val (1::nat)) no_options), (1, Set ''B'' (Val 2) no_options), (2, Has ''A''),
      (3, Set ''C'' (Val 3) no_options), (4, Get ''A''), (5, Get ''B''), (6, Get ''C'')]
     (MemoryAdapter_new \<lparr>ttl = None, maxSize = Some 2\<rparr>))
   = Some [Done, Done, Answer True, Done, Got Undefined, Got (Val 2), Got (Val 3)]"
  by code_simp

section \<open>The key/value adapter while the store accepts writes\<close>

lemma getItem_ls_map: "getItem k st = ls_map st k"
  by (simp add: getItem_def ls_map_def)

lemma ls_getAccessOrder_cong:
  "ls_map st' (ls_accessOrderKey A) = ls_map st (ls_accessOrderKey A) \<Longrightarrow>
   ls_getAccessOrder A st' = ls_getAccessOrder A st"
  by (simp add: ls_getAccessOrder_def getItem_ls_map)

lemma ls_getAccessOrder_OrderDoc:
  "ls_map st (ls_accessOrderKey A) = Some (OrderDoc ks) \<Longrightarrow> ls_getAccessOrder A st = Some ks"
  by (simp add: ls_getAccessOrder_def getItem_ls_map)

lemma setItem_unlimited:
  assumes "\<forall>xs. quota_ok st xs"
  shows "\<exists>st'. setItem k d st = (Inr (), st') \<and> ls_map st' = (ls_map st)(k \<mapsto> d) \<and>
           quota_ok st' = quota_ok st"
  using assms by (simp add: setItem_def Let_def ls_map_def update_conv')

lemma ls_map_removeItem: "ls_map (removeItem k st) = (ls_map st)(k := None)"
  by (simp add: ls_map_def removeItem_def delete_conv')

lemma quota_removeItem: "quota_ok (removeItem k st) = quota_ok st"
  by (simp add: removeItem_def)

lemma ls_ok_order: "ls_ok A st \<Longrightarrow> ls_getAccessOrder A st = Some (ls_order A st)"
  by (auto simp: ls_ok_def ls_order_def)

lemma ls_okI:
  "quota_ok st' = quota_ok st \<Longrightarrow> ls_ok A st \<Longrightarrow>
   ls_map st' (ls_accessOrderKey A) = Some (OrderDoc ks) \<Longrightarrow> ls_ok A st'"
  by (simp add: ls_ok_def ls_getAccessOrder_OrderDoc)

lemma ls_ok_removeItem: "ls_ok A st \<Longrightarrow> ls_ok A (removeItem k st)"
  by (auto simp: ls_ok_def quota_removeItem ls_getAccessOrder_def getItem_ls_map ls_map_removeItem
      split: option.splits doc.splits)

lemma ls_setAccessOrder_ok:
  assumes "ls_ok A st"
  shows "\<exists>st'. ls_setAccessOrder A order st = (Inr (), st') \<and>
           ls_map st' = (ls_map st)(ls_accessOrderKey A \<mapsto> OrderDoc order) \<and> ls_ok A st'"
proof -
  from assms have q: "\<forall>xs. quota_ok st xs" by (simp add: ls_ok_def)
  from setItem_unlimited[OF q, of "ls_accessOrderKey A" "OrderDoc order"]
  obtain st' where s: "setItem (ls_accessOrderKey A) (OrderDoc order) st = (Inr (), st')"
    "ls_map st' = (ls_map st)(ls_accessOrderKey A \<mapsto> OrderDoc order)" "quota_ok st' = quota_ok st"
    by blast
  then have "ls_ok A st'" using assms by (intro ls_okI[of st' st A order]) simp_all
  with s show ?thesis by (auto simp: ls_setAccessOrder_def)
qed

lemma ls_removeFromStorage_ok:
  assumes "ls_ok A st"
  shows "\<exists>st'. ls_removeFromStorage A key st = (Inr (), st') \<and>
           ls_map st' = (ls_map st)(ls_getFullKey A key := None,
              ls_accessOrderKey A \<mapsto>
                OrderDoc (filter (\<lambda>k. k \<noteq> key) (ls_order A (removeItem (ls_getFullKey A key) st)))) \<and>
           ls_ok A st'"
proof -
  let ?st1 = "removeItem (ls_getFullKey A key) st"
  have ok1: "ls_ok A ?st1" using assms by (rule ls_ok_removeItem)
  from ls_setAccessOrder_ok[OF ok1, of "filter (\<lambda>k. k \<noteq> key) (ls_order A ?st1)"]
  obtain st' where s:
    "ls_setAccessOrder A (filter (\<lambda>k. k \<noteq> key) (ls_order A ?st1)) ?st1 = (Inr (), st')"
    "ls_map st' = (ls_map ?st1)(ls_accessOrderKey A \<mapsto> OrderDoc (filter (\<lambda>k. k \<noteq> key) (ls_order A ?st1)))"
    "ls_ok A st'"
    by blast
  have "ls_removeFromStorage A key st = (Inr (), st')"
    using s(1) by (simp add: ls_removeFromStorage_def Let_def io_simps as_array_def ls_ok_order[OF ok1])
  with s show ?thesis by (auto simp: ls_map_removeItem)
qed

lemma ls_order_removeItem:
  "ls_order A (removeItem k st) =
     (if k = ls_accessOrderKey A then [] else ls_order A st)"
  by (simp add: ls_order_def ls_getAccessOrder_def getItem_ls_map ls_map_removeItem)

lemma ls_updateAccessOrder_ok:
  fixes key :: string and A :: LocalStorageAdapter and st :: "'v localStorage"
  assumes "ls_ok A st"
  defines "order \<equiv> filter (\<lambda>k. k \<noteq> key) (ls_order A st) @ [key]"
  shows "\<exists>st'. ls_updateAccessOrder A key st = (Inr (), st') \<and> ls_ok A st' \<and>
           ls_map st' =
             (if enat (length order) > ls_maxSize A
              then (if hd order \<noteq> []
                    then (ls_map st)(ls_getFullKey A (hd order) := None)
                    else ls_map st)(ls_accessOrderKey A \<mapsto> OrderDoc (tl order))
              else (ls_map st)(ls_accessOrderKey A \<mapsto> OrderDoc order))"
proof (cases "enat (length order) > ls_maxSize A")
  case False
  from ls_setAccessOrder_ok[OF assms(1), of order] False show ?thesis
    by (auto simp: ls_updateAccessOrder_def Let_def io_simps as_array_def ls_ok_order[OF assms(1)] order_def)
next
  case True
  show ?thesis
  proof (cases "hd order \<noteq> []")
    case False
    from ls_setAccessOrder_ok[OF assms(1), of "tl order"] True False show ?thesis
      by (auto simp: ls_updateAccessOrder_def Let_def io_simps as_array_def ls_ok_order[OF assms(1)] order_def)
  next
    case h: True
    from ls_removeFromStorage_ok[OF assms(1), of "hd order"]
    obtain st1 where r: "ls_removeFromStorage A (hd order) st = (Inr (), st1)"
      "ls_map st1 = (ls_map st)(ls_getFullKey A (hd order) := None,
              ls_accessOrderKey A \<mapsto>
                OrderDoc (filter (\<lambda>k. k \<noteq> hd order) (ls_order A (removeItem (ls_getFullKey A (hd order)) st))))"
      "ls_ok A st1" by blast
    from ls_setAccessOrder_ok[OF r(3), of "tl order"]
    obtain st' where s: "ls_setAccessOrder A (tl order) st1 = (Inr (), st')"
      "ls_map st' = (ls_map st1)(ls_accessOrderKey A \<mapsto> OrderDoc (tl order))" "ls_ok A st'"
      by blast
    have "ls_updateAccessOrder A key st = (Inr (), st')"
      using True h r(1) s(1)
      by (simp add: ls_updateAccessOrder_def Let_def io_simps as_array_def ls_ok_order[OF assms(1)] order_def)
    moreover have "ls_map st' = ((ls_map st)(ls_getFullKey A (hd order) := None))
                     (ls_accessOrderKey A \<mapsto> OrderDoc (tl order))"
      unfolding s(2) r(2) by simp
    ultimately show ?thesis using True h s(3) by simp
  qed
qed

lemma ls_get_absent:
  "ls_map st (ls_getFullKey A key) = None \<or> ls_map st (ls_getFullKey A key) = Some EmptyText \<Longrightarrow>
   ls_get A key now (Some st) = (Inr Undefined, Some st)"
  by (auto simp: ls_get_def ls_guard_def getItem_ls_map)

lemma ls_get_unfold:
  "ls_map st (ls_getFullKey A key) = Some raw \<Longrightarrow> raw \<noteq> EmptyText \<Longrightarrow>
   ls_get A key now (Some st) =
     (case io_catch
             (case parse_entry raw of
                None \<Rightarrow> io_throw SyntaxError
              | Some entry \<Rightarrow>
                  if isExpired now entry
                  then io_bind (ls_removeFromStorage A key) (\<lambda>_. io_return Undefined)
                  else io_bind (ls_updateAccessOrder A key) (\<lambda>_. io_return (entry_value entry)))
             (io_bind (ls_removeFromStorage A key) (\<lambda>_. io_return Undefined)) st
      of (r, st') \<Rightarrow> (r, Some st'))"
  by (cases raw) (simp_all add: ls_get_def ls_guard_def getItem_ls_map)

lemma ls_get_purges:
  assumes "ls_ok A st" and "ls_map st (ls_getFullKey A key) = Some raw" and "raw \<noteq> EmptyText"
    and "parse_entry raw = None \<or> (\<exists>e. parse_entry raw = Some e \<and> isExpired now e)"
  shows "\<exists>st'. ls_get A key now (Some st) = (Inr Undefined, Some st') \<and> ls_ok A st' \<and>
           ls_map st' = (ls_map st)(ls_getFullKey A key := None,
              ls_accessOrderKey A \<mapsto>
                OrderDoc (filter (\<lambda>k. k \<noteq> key) (ls_order A (removeItem (ls_getFullKey A key) st))))"
proof -
  from ls_removeFromStorage_ok[OF assms(1), of key]
  obtain st' where r: "ls_removeFromStorage A key st = (Inr (), st')"
    "ls_map st' = (ls_map st)(ls_getFullKey A key := None,
              ls_accessOrderKey A \<mapsto>
                OrderDoc (filter (\<lambda>k. k \<noteq> key) (ls_order A (removeItem (ls_getFullKey A key) st))))"
    "ls_ok A st'" by blast
  have "ls_get A key now (Some st) = (Inr Undefined, Some st')"
    using assms(4) r(1) by (auto simp: ls_get_unfold[OF assms(2,3)] io_simps)
  with r show ?thesis by blast
qed

lemma ls_get_hit:
  fixes key :: string and A :: LocalStorageAdapter and st :: "'v localStorage"
  assumes "ls_ok A st" and "ls_map st (ls_getFullKey A key) = Some raw" and "raw \<noteq> EmptyText"
    and "parse_entry raw = Some e" and "\<not> isExpired now e"
  defines "order \<equiv> filter (\<lambda>k. k \<noteq> key) (ls_order A st) @ [key]"
  shows "\<exists>st'. ls_get A key now (Some st) = (Inr (entry_value e), Some st') \<and> ls_ok A st' \<and>
           ls_map st' =
             (if enat (length order) > ls_maxSize A
              then (if hd order \<noteq> []
                    then (ls_map st)(ls_getFullKey A (hd order) := None)
                    else ls_map st)(ls_accessOrderKey A \<mapsto> OrderDoc (tl order))
              else (ls_map st)(ls_accessOrderKey A \<mapsto> OrderDoc order))"
proof -
  from ls_updateAccessOrder_ok[OF assms(1), of key, folded order_def]
  obtain st' where u: "ls_updateAccessOrder A key st = (Inr (), st')" "ls_ok A st'"
    "ls_map st' =
             (if enat (length order) > ls_maxSize A
              then (if hd order \<noteq> []
                    then (ls_map st)(ls_getFullKey A (hd order) := None)
                    else ls_map st)(ls_accessOrderKey A \<mapsto> OrderDoc (tl order))
              else (ls_map st)(ls_accessOrderKey A \<mapsto> OrderDoc order))"
    by blast
  have "ls_get A key now (Some st) = (Inr (entry_value e), Some st')"
    using assms(4,5) u(1) by (simp add: ls_get_unfold[OF assms(2,3)] io_simps)
  with u show ?thesis by blast
qed

lemma ls_set_ok:
  fixes key :: string and A :: LocalStorageAdapter and st :: "'v localStorage"
    and v :: "'v js" and options :: CacheOptions and now :: int
  assumes "ls_ok A st" and "ls_getFullKey A key \<noteq> ls_accessOrderKey A"
  defines "order \<equiv> filter (\<lambda>k. k \<noteq> key) (ls_order A st) @ [key]"
    and "m1 \<equiv> (ls_map st)(ls_getFullKey A key \<mapsto> EntryDoc (new_entry now v options))"
  shows "\<exists>st'. ls_set A key v options now (Some st) = (Inr (), Some st') \<and> ls_ok A st' \<and>
           ls_map st' =
             (if enat (length order) > ls_maxSize A
              then (if hd order \<noteq> []
                    then m1(ls_getFullKey A (hd order) := None)
                    else m1)(ls_accessOrderKey A \<mapsto> OrderDoc (tl order))
              else m1(ls_accessOrderKey A \<mapsto> OrderDoc order))"
proof -
  from assms(1) have q: "\<forall>xs. quota_ok st xs" by (simp add: ls_ok_def)
  from setItem_unlimited[OF q, of "ls_getFullKey A key" "EntryDoc (new_entry now v options)"]
  obtain st1 where s1: "setItem (ls_getFullKey A key) (EntryDoc (new_entry now v options)) st = (Inr (), st1)"
    "ls_map st1 = m1" "quota_ok st1 = quota_ok st"
    by (auto simp: m1_def)
  have a: "ls_map st1 (ls_accessOrderKey A) = ls_map st (ls_accessOrderKey A)"
    using assms(2) by (simp add: s1(2) m1_def)
  have o1: "ls_getAccessOrder A st1 = ls_getAccessOrder A st"
    by (rule ls_getAccessOrder_cong[OF a])
  have ok1: "ls_ok A st1" using assms(1) s1(3) o1 by (simp add: ls_ok_def)
  have ord1: "ls_order A st1 = ls_order A st" by (simp add: ls_order_def o1)
  from ls_updateAccessOrder_ok[OF ok1, of key, unfolded ord1, folded order_def]
  obtain st' where u: "ls_updateAccessOrder A key st1 = (Inr (), st')" "ls_ok A st'"
    "ls_map st' =
             (if enat (length order) > ls_maxSize A
              then (if hd order \<noteq> []
                    then (ls_map st1)(ls_getFullKey A (hd order) := None)
                    else ls_map st1)(ls_accessOrderKey A \<mapsto> OrderDoc (tl order))
              else (ls_map st1)(ls_accessOrderKey A \<mapsto> OrderDoc order))"
    by blast
  have "ls_set A key v options now (Some st) = (Inr (), Some st')"
    using s1(1) u(1) by (simp add: ls_set_def ls_guard_def Let_def io_simps)
  with u(2,3) show ?thesis by (auto simp: s1(2))
qed

lemma ls_delete_ok:
  assumes "ls_ok A st"
  shows "\<exists>st'. ls_delete A key (Some st) = (Inr (), Some st') \<and> ls_ok A st' \<and>
           ls_map st' = (ls_map st)(ls_getFullKey A key := None,
              ls_accessOrderKey A \<mapsto>
                OrderDoc (filter (\<lambda>k. k \<noteq> key) (ls_order A (removeItem (ls_getFullKey A key) st))))"
  using ls_removeFromStorage_ok[OF assms, of key]
  by (auto simp: ls_delete_def ls_guard_def)

lemma ls_fullKey_neq_reserved:
  "ls_wf A \<Longrightarrow> key \<noteq> ''__access_order'' \<Longrightarrow> ls_getFullKey A key \<noteq> ls_accessOrderKey A"
  by (simp add: ls_wf_def ls_getFullKey_def)

lemma ls_fullKey_inj: "ls_getFullKey A a = ls_getFullKey A b \<longleftrightarrow> a = b"
  by (simp add: ls_getFullKey_def)

lemma ls_maxSize_new: "ls_maxSize (LocalStorageAdapter_new options pfx) \<noteq> 0"
  by (simp add: LocalStorageAdapter_new_def Let_def resolve_maxSize_def zero_enat_def split: option.splits)

lemma enat_gt_nonzero: "m \<noteq> 0 \<Longrightarrow> m < enat n \<Longrightarrow> Suc 0 < n"
  by (cases m) (auto simp: zero_enat_def)

lemma ls_set_stores:
  fixes st :: "'v localStorage"
  assumes "ls_ok A st" and "ls_wf A" and "ls_maxSize A \<noteq> 0" and "key \<noteq> ''__access_order''"
  shows "\<exists>st'. ls_set A key v options now (Some st) = (Inr (), Some st') \<and> ls_ok A st' \<and>
           ls_map st' (ls_getFullKey A key) = Some (EntryDoc (new_entry now v options))"
proof -
  note ne = ls_fullKey_neq_reserved[OF assms(2,4)]
  let ?order = "filter (\<lambda>k. k \<noteq> key) (ls_order A st) @ [key]"
  have hd: "hd ?order \<noteq> key" if "enat (length ?order) > ls_maxSize A"
    using enat_gt_nonzero[OF assms(3) that] by (rule hd_filter_append_neq)
  from ls_set_ok[OF assms(1) ne, of v options now]
  obtain st' where s: "ls_set A key v options now (Some st) = (Inr (), Some st')" "ls_ok A st'"
    "ls_map st' =
             (if enat (length ?order) > ls_maxSize A
              then (if hd ?order \<noteq> []
                    then ((ls_map st)(ls_getFullKey A key \<mapsto> EntryDoc (new_entry now v options)))
                           (ls_getFullKey A (hd ?order) := None)
                    else (ls_map st)(ls_getFullKey A key \<mapsto> EntryDoc (new_entry now v options)))
                   (ls_accessOrderKey A \<mapsto> OrderDoc (tl ?order))
              else ((ls_map st)(ls_getFullKey A key \<mapsto> EntryDoc (new_entry now v options)))
                     (ls_accessOrderKey A \<mapsto> OrderDoc ?order))"
    by blast
  have "ls_map st' (ls_getFullKey A key) = Some (EntryDoc (new_entry now v options))"
    unfolding s(3) using ne hd by (auto simp: ls_fullKey_inj)
  with s(1,2) show ?thesis by blast
qed

lemma isExpired_new_entry:
  "isExpired now (new_entry t v \<lparr>ttl = Some d, maxSize = m\<rparr>) \<longleftrightarrow> d \<noteq> 0 \<and> t + d \<noteq> 0 \<and> now \<ge> t + d"
  by (simp add: isExpired_def new_entry_def)

lemma ls_get_after_set:
  fixes st :: "'v localStorage"
  assumes "ls_ok A st" and "ls_map st (ls_getFullKey A key) = Some (EntryDoc e)"
  shows "fst (ls_get A key now (Some st)) = Inr (if isExpired now e then Undefined else entry_value e)"
proof (cases "isExpired now e")
  case True
  with ls_get_purges[OF assms(1,2), of now] show ?thesis by (auto simp: parse_entry_def)
next
  case False
  with ls_get_hit[OF assms(1,2), of e now] show ?thesis by (auto simp: parse_entry_def)
qed

section \<open>The file adapter: the repair pass\<close>

lemma replace_first_json:
  "CHR ''.'' \<notin> set h \<Longrightarrow> replace_first ''.json'' [] (h @ ''.json'') = h"
  by (induction h) auto

lemma fs_unlink_present:
  "map_of files f = Some content \<Longrightarrow>
   fs_unlink f (Some files) = (Inr (), Some (filter (\<lambda>p. fst p \<noteq> f) files))"
  by (simp add: fs_unlink_def delete_filter)

lemma fs_unlink_absent:
  "map_of files f = None \<Longrightarrow> fs_unlink f (Some files) = (Inl ENOENT, Some files)"
  by (simp add: fs_unlink_def)

lemma fs_cleanup_file_alive:
  "fs_alive now files f \<Longrightarrow>
   fs_cleanup_file now f acc (Some files) = (Inr (acc @ [replace_first ''.json'' [] f]), Some files)"
  by (auto simp: fs_alive_def fs_cleanup_file_def io_simps fs_readFile_def split: option.splits)

lemma fs_cleanup_file_dead:
  "\<not> fs_alive now files f \<Longrightarrow> f \<in> fst ` set files \<Longrightarrow>
   fs_cleanup_file now f acc (Some files) = (Inr acc, Some (filter (\<lambda>p. fst p \<noteq> f) files))"
proof -
  assume a: "\<not> fs_alive now files f" and m: "f \<in> fst ` set files"
  from m obtain content where c: "map_of files f = Some content"
    by (metis domD dom_map_of_conv_image_fst)
  show ?thesis
    using a c
    by (auto simp: fs_alive_def fs_cleanup_file_def io_simps fs_readFile_def fs_unlink_present[OF c]
          split: option.splits)
qed

lemma fs_alive_filter_other:
  "g \<noteq> f \<Longrightarrow> fs_alive now (filter (\<lambda>p. fst p \<noteq> f) files) g = fs_alive now files g"
  by (simp add: fs_alive_def delete_filter[symmetric])

lemma fs_cleanup_scan_result:
  assumes "distinct names" and "set names \<subseteq> fst ` set files"
  shows "fs_cleanup_scan now names acc (Some files) =
           (Inr (acc @ map (replace_first ''.json'' []) (filter (fs_alive now files) names)),
            Some (filter (\<lambda>p. fst p \<notin> set names \<or> fs_alive now files (fst p)) files))"
  using assms
proof (induction names arbitrary: acc files)
  case Nil
  then show ?case by (simp add: io_simps)
next
  case (Cons f names)
  show ?case
  proof (cases "fs_alive now files f")
    case True
    have "fs_cleanup_scan now (f # names) acc (Some files) =
            fs_cleanup_scan now names (acc @ [replace_first ''.json'' [] f]) (Some files)"
      by (simp add: io_simps fs_cleanup_file_alive[OF True])
    also have "\<dots> = (Inr ((acc @ [replace_first ''.json'' [] f]) @
                         map (replace_first ''.json'' []) (filter (fs_alive now files) names)),
            Some (filter (\<lambda>p. fst p \<notin> set names \<or> fs_alive now files (fst p)) files))"
      using Cons.prems by (intro Cons.IH) auto
    also have "filter (\<lambda>p. fst p \<notin> set names \<or> fs_alive now files (fst p)) files =
               filter (\<lambda>p. fst p \<notin> set (f # names) \<or> fs_alive now files (fst p)) files"
      using True by (intro filter_cong) auto
    finally show ?thesis using True by simp
  next
    case False
    let ?files' = "filter (\<lambda>p. fst p \<noteq> f) files"
    have fin: "f \<in> fst ` set files" using Cons.prems by simp
    have ne: "g \<noteq> f" if "g \<in> set names" for g
      using Cons.prems that by auto
    have sub: "set names \<subseteq> fst ` set ?files'"
      using Cons.prems by force
    have "fs_cleanup_scan now (f # names) acc (Some files) =
            fs_cleanup_scan now names acc (Some ?files')"
      by (simp add: io_simps fs_cleanup_file_dead[OF False fin])
    also have "\<dots> = (Inr (acc @ map (replace_first ''.json'' []) (filter (fs_alive now ?files') names)),
            Some (filter (\<lambda>p. fst p \<notin> set names \<or> fs_alive now ?files' (fst p)) ?files'))"
      using Cons.prems sub by (intro Cons.IH) auto
    also have "filter (fs_alive now ?files') names = filter (fs_alive now files) names"
      by (intro filter_cong) (simp_all add: fs_alive_filter_other ne)
    also have "filter (\<lambda>p. fst p \<notin> set names \<or> fs_alive now ?files' (fst p)) ?files' =
               filter (\<lambda>p. fst p \<notin> set (f # names) \<or> fs_alive now files (fst p)) files"
    proof -
      have "filter (\<lambda>p. fst p \<notin> set names \<or> fs_alive now ?files' (fst p)) ?files' =
            filter (\<lambda>p. fst p \<noteq> f \<and> (fst p \<notin> set names \<or> fs_alive now ?files' (fst p))) files"
        by (simp add: conj_commute)
      also have "\<dots> = filter (\<lambda>p. fst p \<notin> set (f # names) \<or> fs_alive now files (fst p)) files"
        using False ne by (intro filter_cong) (auto simp: fs_alive_filter_other)
      finally show ?thesis .
    qed
    finally show ?thesis using False by simp
  qed
qed

lemma add_missing_distinct:
  "distinct vs \<Longrightarrow> add_missing vs xs = xs @ filter (\<lambda>v. v \<notin> set xs) vs"
  unfolding add_missing_def
proof (induction vs arbitrary: xs)
  case Nil
  then show ?case by simp
next
  case (Cons v vs)
  then have "filter (\<lambda>x. x \<noteq> v \<and> x \<notin> set xs) vs = filter (\<lambda>x. x \<notin> set xs) vs"
    by (intro filter_cong) auto
  with Cons show ?case by (auto simp: conj_commute)
qed

lemma fs_evict_excess_unbounded:
  "fs_maxSize A = \<infinity> \<Longrightarrow> fs_evict_excess A order dir = (Inr order, dir)"
  by (cases order) (simp_all add: io_simps)

section \<open>The file adapter: set and get on a consistent directory\<close>

lemma fs_inv_order: "fs_inv dir \<Longrightarrow> fs_getAccessOrder dir = Some (fs_order dir)"
  by (auto simp: fs_inv_def fs_order_def)

lemma fs_getAccessOrder_map:
  "fs_getAccessOrder dir =
     (case fs_map dir accessOrderFile of
        None \<Rightarrow> Some []
      | Some EmptyText \<Rightarrow> Some []
      | Some Garbage \<Rightarrow> Some []
      | Some (OrderDoc ks) \<Rightarrow> Some ks
      | Some (EntryDoc entry) \<Rightarrow> None)"
  by (auto simp: fs_getAccessOrder_def fs_readFile_def fs_map_def split: option.splits doc.splits)

lemma fs_unlink_catch:
  "io_catch (fs_unlink f) (io_return ()) (Some files) = (Inr (), Some (filter (\<lambda>p. fst p \<noteq> f) files))"
proof (cases "map_of files f")
  case None
  then have "\<forall>p \<in> set files. fst p \<noteq> f"
    by (metis domIff dom_map_of_conv_image_fst imageI)
  then have "filter (\<lambda>p. fst p \<noteq> f) files = files" by simp
  with None show ?thesis by (simp add: io_simps fs_unlink_absent)
next
  case (Some content)
  then show ?thesis by (simp add: io_simps fs_unlink_present)
qed

lemma fs_setAccessOrder_Some:
  "fs_setAccessOrder order (Some files) = (Inr (), Some (AList.update accessOrderFile (OrderDoc order) files))"
  by (simp add: fs_setAccessOrder_def io_simps fs_ensureDirectory_def fs_writeFile_def)

lemma fs_evict_excess_bounded:
  assumes "fs_maxSize A = enat n"
  shows "fs_evict_excess A order (Some files) =
           (Inr (drop (length order - n) order),
            Some (filter (\<lambda>p. fst p \<notin> (\<lambda>k. k @ ''.json'') `
                              {k \<in> set (take (length order - n) order). k \<noteq> []}) files))"
proof (induction order arbitrary: files)
  case Nil
  then show ?case by (simp add: io_simps)
next
  case (Cons k rest)
  show ?case
  proof (cases "n < length (k # rest)")
    case False
    then show ?thesis using assms by (simp add: io_simps)
  next
    case True
    then have l: "Suc (length rest) - n = Suc (length rest - n)" by simp
    show ?thesis
    proof (cases "k = []")
      case k: True
      have "{ka. (ka = [] \<or> ka \<in> set (take (length rest - n) rest)) \<and> ka \<noteq> []} =
            {ka \<in> set (take (length rest - n) rest). ka \<noteq> []}" by auto
      then show ?thesis
        using True assms k
        by (simp add: io_simps Cons.IH l)
    next
      case k: False
      have "filter (\<lambda>p. fst p \<notin> (\<lambda>k. k @ ''.json'') ` {ka \<in> set (take (length rest - n) rest). ka \<noteq> []})
              (filter (\<lambda>p. fst p \<noteq> k @ ''.json'') files) =
            filter (\<lambda>p. fst p \<notin> (\<lambda>k. k @ ''.json'') ` {ka \<in> set (k # take (length rest - n) rest). ka \<noteq> []}) files"
        using k by (auto intro!: filter_cong)
      then show ?thesis
        using True assms k
        by (simp add: io_bind_apply io_return_apply Cons.IH l fs_unlink_catch)
    qed
  qed
qed

lemma fs_evict_excess_shape:
  "\<exists>order' files'. fs_evict_excess A order (Some files) = (Inr order', Some files') \<and>
      set files' \<subseteq> set files \<and> (distinct (map fst files) \<longrightarrow> distinct (map fst files'))"
proof (cases "fs_maxSize A")
  case (enat n)
  show ?thesis
    by (auto simp: fs_evict_excess_bounded[OF enat] distinct_map_filter)
next
  case infinity
  then show ?thesis by (simp add: fs_evict_excess_unbounded)
qed

lemma fs_getAccessOrder_files: "fs_getAccessOrder (Some (fs_files dir)) = fs_getAccessOrder dir"
  by (cases dir) (simp_all add: fs_files_def fs_getAccessOrder_def fs_readFile_def)

lemma fs_cleanup_result:
  fixes dir :: "'v directory"
  assumes "fs_inv dir"
  shows "\<exists>order' files2.
           fs_evict_excess A (fs_reconciled now (fs_files dir) (fs_order dir))
             (Some (fs_survivors now (fs_files dir))) = (Inr order', Some files2) \<and>
           fs_cleanup A now dir =
             (Inr (), Some (AList.update accessOrderFile (OrderDoc order') files2))"
proof -
  let ?files = "fs_files dir"
  have d: "distinct (map fst ?files)"
    using assms by (cases dir) (simp_all add: fs_inv_def fs_files_def)
  have e: "fs_ensureDirectory dir = (Inr (), Some ?files)"
    by (cases dir) (simp_all add: fs_ensureDirectory_def fs_files_def)
  have r: "fs_readdir (Some ?files) = (Inr (map fst ?files), Some ?files)"
    by (simp add: fs_readdir_def)
  have dn: "distinct (fs_names ?files)" using d by (simp add: fs_names_def)
  have sn: "set (fs_names ?files) \<subseteq> fst ` set ?files" by (auto simp: fs_names_def)
  have surv: "filter (\<lambda>p. fst p \<notin> set (fs_names ?files) \<or> fs_alive now ?files (fst p)) ?files =
              fs_survivors now ?files"
    unfolding fs_survivors_def by (intro filter_cong) (auto simp: fs_names_def)
  have scan: "fs_cleanup_scan now (fs_names ?files) [] (Some ?files) =
                (Inr (fs_validKeys now ?files), Some (fs_survivors now ?files))"
    unfolding fs_validKeys_def surv[symmetric]
    using fs_cleanup_scan_result[OF dn sn, of now "[]"] by simp
  have o: "fs_getAccessOrder (Some ?files) = Some (fs_order dir)"
    using fs_inv_order[OF assms] by (simp add: fs_getAccessOrder_files)
  obtain order' files2 where ev:
    "fs_evict_excess A (fs_reconciled now ?files (fs_order dir)) (Some (fs_survivors now ?files)) =
       (Inr order', Some files2)"
    using fs_evict_excess_shape[of A "fs_reconciled now ?files (fs_order dir)" "fs_survivors now ?files"]
    by blast
  have "fs_cleanup A now dir = (Inr (), Some (AList.update accessOrderFile (OrderDoc order') files2))"
    unfolding fs_cleanup_def
    by (simp add: io_bind_apply e r Let_def scan[unfolded fs_names_def] o as_array_def io_return_apply
          ev[unfolded fs_reconciled_def] fs_setAccessOrder_Some)
  with ev show ?thesis by blast
qed

lemma fs_getAccessOrder_update:
  "fs_getAccessOrder (Some (AList.update accessOrderFile (OrderDoc order) files)) = Some order"
  by (simp add: fs_getAccessOrder_def fs_readFile_def update_conv')

lemma fs_getAccessOrder_cong:
  "fs_map d1 accessOrderFile = fs_map d2 accessOrderFile \<Longrightarrow>
   fs_getAccessOrder d1 = fs_getAccessOrder d2"
  by (simp add: fs_getAccessOrder_map)

lemma fs_getAccessOrder_update_other:
  "f \<noteq> accessOrderFile \<Longrightarrow>
   fs_getAccessOrder (Some (AList.update f d files)) = fs_getAccessOrder (Some files)"
  by (rule fs_getAccessOrder_cong) (simp add: fs_map_def update_conv')

lemma fs_getAccessOrder_filter_other:
  "f \<noteq> accessOrderFile \<Longrightarrow>
   fs_getAccessOrder (Some (filter (\<lambda>p. fst p \<noteq> f) files)) = fs_getAccessOrder (Some files)"
  by (rule fs_getAccessOrder_cong) (simp add: fs_map_def delete_filter[symmetric])

lemma fs_inv_update_order:
  "distinct (map fst files) \<Longrightarrow> fs_inv (Some (AList.update accessOrderFile (OrderDoc order) files))"
  by (simp add: fs_inv_def distinct_update fs_getAccessOrder_update)

lemma fs_evict_for_result:
  assumes "fs_getAccessOrder (Some files) = Some order"
  shows "fs_evict_for A key (Some files) =
           (Inr (),
            if key \<notin> set order \<and> enat (length order) \<ge> fs_maxSize A \<and> order \<noteq> [] \<and> hd order \<noteq> []
            then Some (AList.update accessOrderFile (OrderDoc (tl order))
                         (filter (\<lambda>p. fst p \<noteq> hd order @ ''.json'') files))
            else Some files)"
  using assms
  by (cases order)
     (simp_all add: fs_evict_for_def io_bind_apply io_return_apply as_array_def fs_unlink_catch
        fs_setAccessOrder_Some)

lemma fs_evict_for_inv:
  assumes "fs_inv (Some files)"
  shows "\<exists>files'. fs_evict_for A key (Some files) = (Inr (), Some files') \<and> fs_inv (Some files')"
proof -
  have d: "distinct (map fst files)" using assms by (simp add: fs_inv_def)
  show ?thesis
    using fs_evict_for_result[OF fs_inv_order[OF assms], of A key] assms d
    by (auto simp: fs_inv_update_order distinct_map_filter)
qed

lemma fs_cleanup_inv:
  assumes "fs_inv dir"
  shows "\<exists>files'. fs_cleanup A now dir = (Inr (), Some files') \<and> fs_inv (Some files')"
proof -
  from fs_cleanup_result[OF assms, of A now] obtain order' files2 where
    ev: "fs_evict_excess A (fs_reconciled now (fs_files dir) (fs_order dir))
             (Some (fs_survivors now (fs_files dir))) = (Inr order', Some files2)"
    and c: "fs_cleanup A now dir = (Inr (), Some (AList.update accessOrderFile (OrderDoc order') files2))"
    by blast
  have d: "distinct (map fst (fs_files dir))"
    using assms by (cases dir) (simp_all add: fs_inv_def fs_files_def)
  then have "distinct (map fst (fs_survivors now (fs_files dir)))"
    by (simp add: fs_survivors_def distinct_map_filter)
  with fs_evict_excess_shape[of A "fs_reconciled now (fs_files dir) (fs_order dir)"
      "fs_survivors now (fs_files dir)"] ev
  have "distinct (map fst files2)" by auto
  with c show ?thesis by (auto simp: fs_inv_update_order)
qed

lemma fs_updateAccessOrder_result:
  assumes "fs_getAccessOrder (Some files) = Some order"
  shows "fs_updateAccessOrder key (Some files) =
           (Inr (), Some (AList.update accessOrderFile
                            (OrderDoc (filter (\<lambda>k. k \<noteq> key) order @ [key])) files))"
  using assms
  by (simp add: fs_updateAccessOrder_def io_bind_apply io_return_apply as_array_def fs_setAccessOrder_Some)

lemma fs_set_stores:
  fixes dir :: "'v directory"
  assumes "fs_inv dir" and "fs_getFilePath A key \<noteq> accessOrderFile"
  shows "\<exists>files'. fs_set A key v options now dir = (Inr (), Some files') \<and> fs_inv (Some files') \<and>
           map_of files' (fs_getFilePath A key) = Some (EntryDoc (new_entry now v options))"
proof -
  from fs_cleanup_inv[OF assms(1), of A now] obtain f1 where
    c: "fs_cleanup A now dir = (Inr (), Some f1)" "fs_inv (Some f1)" by blast
  from fs_evict_for_inv[OF c(2), of A key] obtain f2 where
    e: "fs_evict_for A key (Some f1) = (Inr (), Some f2)" "fs_inv (Some f2)" by blast
  let ?f3 = "AList.update (fs_getFilePath A key) (EntryDoc (new_entry now v options)) f2"
  have w: "fs_writeFile (fs_getFilePath A key) (EntryDoc (new_entry now v options)) (Some f2) =
             (Inr (), Some ?f3)"
    by (simp add: fs_writeFile_def)
  have o3: "fs_getAccessOrder (Some ?f3) = Some (fs_order (Some f2))"
    using fs_inv_order[OF e(2)] assms(2) by (simp add: fs_getAccessOrder_update_other)
  let ?f4 = "AList.update accessOrderFile
               (OrderDoc (filter (\<lambda>k. k \<noteq> key) (fs_order (Some f2)) @ [key])) ?f3"
  have u: "fs_updateAccessOrder key (Some ?f3) = (Inr (), Some ?f4)"
    by (rule fs_updateAccessOrder_result[OF o3])
  have "fs_set A key v options now dir = (Inr (), Some ?f4)"
    by (simp add: fs_set_def io_bind_apply c(1) e(1) w u)
  moreover have "fs_inv (Some ?f4)"
    using e(2) by (intro fs_inv_update_order) (simp add: fs_inv_def distinct_update)
  moreover have "map_of ?f4 (fs_getFilePath A key) = Some (EntryDoc (new_entry now v options))"
    using assms(2) by (simp add: update_conv')
  ultimately show ?thesis by blast
qed

lemma fs_ensure_files: "fs_ensureDirectory dir = (Inr (), Some (fs_files dir))"
  by (cases dir) (simp_all add: fs_ensureDirectory_def fs_files_def)

lemma fs_get_absent:
  "map_of (fs_files dir) (fs_getFilePath A key) = None \<Longrightarrow>
   fs_get A key now dir = (Inr Undefined, Some (fs_files dir))"
  by (simp add: fs_get_def io_simps fs_ensure_files fs_readFile_def)

lemma fs_get_malformed:
  "map_of (fs_files dir) (fs_getFilePath A key) = Some raw \<Longrightarrow> parse_entry raw = None \<Longrightarrow>
   fs_get A key now dir = (Inr Undefined, Some (fs_files dir))"
  by (simp add: fs_get_def io_simps fs_ensure_files fs_readFile_def)

lemma fs_get_hit:
  assumes "map_of files (fs_getFilePath A key) = Some raw" and "parse_entry raw = Some e"
    and "\<not> isExpired now e" and "fs_getAccessOrder (Some files) = Some order"
  shows "fs_get A key now (Some files) =
           (Inr (entry_value e),
            Some (AList.update accessOrderFile (OrderDoc (filter (\<lambda>k. k \<noteq> key) order @ [key])) files))"
  using assms
  by (simp add: fs_get_def io_bind_apply io_catch_apply io_return_apply fs_ensureDirectory_def
      fs_readFile_def fs_updateAccessOrder_result[OF assms(4)])

lemma fs_get_expired:
  assumes "map_of files (fs_getFilePath A key) = Some raw" and "parse_entry raw = Some e"
    and "isExpired now e"
    and "fs_getAccessOrder (Some (filter (\<lambda>p. fst p \<noteq> fs_getFilePath A key) files)) = Some order"
  shows "fs_get A key now (Some files) =
           (Inr Undefined,
            Some (AList.update accessOrderFile (OrderDoc (filter (\<lambda>k. k \<noteq> key) order))
                    (filter (\<lambda>p. fst p \<noteq> fs_getFilePath A key) files)))"
  using assms
  by (simp add: fs_get_def io_bind_apply io_catch_apply io_return_apply fs_ensureDirectory_def
      fs_readFile_def fs_unlink_present[OF assms(1)] as_array_def fs_setAccessOrder_Some)

lemma fs_get_after_set:
  assumes "fs_inv (Some files)" and "map_of files (fs_getFilePath A key) = Some (EntryDoc e)"
    and "fs_getFilePath A key \<noteq> accessOrderFile"
  shows "fst (fs_get A key now (Some files)) = Inr (if isExpired now e then Undefined else entry_value e)"
proof (cases "isExpired now e")
  case True
  have "fs_getAccessOrder (Some (filter (\<lambda>p. fst p \<noteq> fs_getFilePath A key) files)) =
        Some (fs_order (Some files))"
    using fs_inv_order[OF assms(1)] assms(3) by (simp add: fs_getAccessOrder_filter_other)
  from fs_get_expired[OF assms(2) _ True this] True show ?thesis by (simp add: parse_entry_def)
next
  case False
  from fs_get_hit[OF assms(2) _ False fs_inv_order[OF assms(1)]] False show ?thesis
    by (simp add: parse_entry_def)
qed

section \<open>C4: the expiry boundary\<close>

lemma mem_get_has_after_set:
  assumes "map_of (mem_store s) key = Some e"
  shows "fst (mem_get key now s) = (if isExpired now e then Undefined else entry_value e)"
    and "fst (mem_has key now s) = (\<not> isExpired now e)"
  using assms by (simp_all add: mem_get_def mem_has_def)

lemma ls_has_after_set:
  fixes st :: "'v localStorage"
  assumes "ls_ok A st" and "ls_map st (ls_getFullKey A key) = Some (EntryDoc e)"
  shows "fst (ls_has A key now (Some st)) = Inr (\<not> isExpired now e \<and> entry_value e \<noteq> Undefined)"
  using ls_get_after_set[OF assms, of now]
  by (cases "ls_get A key now (Some st)") (auto simp: ls_has_eq split: sum.splits)

lemma fs_has_after_set:
  assumes "fs_inv (Some files)" and "map_of files (fs_getFilePath A key) = Some (EntryDoc e)"
    and "fs_getFilePath A key \<noteq> accessOrderFile"
  shows "fst (fs_has A key now (Some files)) = Inr (\<not> isExpired now e \<and> entry_value e \<noteq> Undefined)"
  using fs_get_after_set[OF assms, of now]
  by (cases "fs_get A key now (Some files)") (auto simp: fs_has_eq split: sum.splits)

lemma fs_inv_None: "fs_inv None"
  by (simp add: fs_inv_def fs_getAccessOrder_def fs_readFile_def)

text \<open>
  C4, as amended. For every entry stored with a value and \<open>ttl = d\<close> at time \<open>t\<close>,
  where \<open>d\<close> is not 0 and \<open>t + d\<close> is not 0, \<open>get\<close> and \<open>has\<close> report a miss
  whenever \<open>now \<ge> t + d\<close> and a hit whenever \<open>now < t + d\<close>, on each of the three
  adapters: on the volatile adapter in a consistent state, on the key/value adapter
  when the store accepts writes (the key not being the reserved \<open>__access_order\<close>),
  on the file adapter on a consistent directory (the file of the key not being the
  access-order file). In each case the \<open>set\<close> returns.
\<close>

theorem C4_expiry_boundary:
  fixes s :: "'v MemoryAdapter" and st :: "'v localStorage" and dir :: "'v directory"
  assumes "ttl options = Some d" and "d \<noteq> 0" and "t + d \<noteq> 0"
  shows
    "(mem_inv s \<longrightarrow>
        (\<exists>s'. mem_set key (Val v) options t s = Some s' \<and>
           fst (mem_get key now s') = (if now \<ge> t + d then Undefined else Val v) \<and>
           fst (mem_has key now s') = (now < t + d))) \<and>
     (ls_ok A st \<and> A = LocalStorageAdapter_new options0 pfx \<and> key \<noteq> ''__access_order'' \<longrightarrow>
        (\<exists>st'. ls_set A key (Val v) options t (Some st) = (Inr (), Some st') \<and>
           fst (ls_get A key now (Some st')) = Inr (if now \<ge> t + d then Undefined else Val v) \<and>
           fst (ls_has A key now (Some st')) = Inr (now < t + d))) \<and>
     (fs_inv dir \<and> fs_getFilePath B key \<noteq> accessOrderFile \<longrightarrow>
        (\<exists>files'. fs_set B key (Val v) options t dir = (Inr (), Some files') \<and>
           fst (fs_get B key now (Some files')) = Inr (if now \<ge> t + d then Undefined else Val v) \<and>
           fst (fs_has B key now (Some files')) = Inr (now < t + d)))"
proof -
  let ?e = "new_entry t (Val v) options"
  have x: "isExpired now ?e \<longleftrightarrow> now \<ge> t + d"
    using assms by (simp add: isExpired_def new_entry_def)
  have v: "entry_value ?e = Val v" by (simp add: new_entry_def)
  have mem: "\<exists>s'. mem_set key (Val v) options t s = Some s' \<and>
           fst (mem_get key now s') = (if now \<ge> t + d then Undefined else Val v) \<and>
           fst (mem_has key now s') = (now < t + d)" if "mem_inv s"
  proof -
    from mem_set_total[OF that] obtain s' where s': "mem_set key (Val v) options t s = Some s'"
      by blast
    from mem_get_has_after_set[OF mem_set_lookup[OF s'], of now] x v s' show ?thesis
      by (auto simp: not_le)
  qed
  have ls: "\<exists>st'. ls_set A key (Val v) options t (Some st) = (Inr (), Some st') \<and>
           fst (ls_get A key now (Some st')) = Inr (if now \<ge> t + d then Undefined else Val v) \<and>
           fst (ls_has A key now (Some st')) = Inr (now < t + d)"
    if "ls_ok A st" "A = LocalStorageAdapter_new options0 pfx" "key \<noteq> ''__access_order''"
  proof -
    have wf: "ls_wf A" and m: "ls_maxSize A \<noteq> 0"
      using that(2) by (simp_all add: ls_wf_new ls_maxSize_new)
    from ls_set_stores[OF that(1) wf m that(3), of "Val v" options t]
    obtain st' where s: "ls_set A key (Val v) options t (Some st) = (Inr (), Some st')"
      "ls_ok A st'" "ls_map st' (ls_getFullKey A key) = Some (EntryDoc ?e)" by blast
    from ls_get_after_set[OF s(2,3), of now] ls_has_after_set[OF s(2,3), of now] s(1) x v
    show ?thesis by (auto simp: not_le)
  qed
  have fs: "\<exists>files'. fs_set B key (Val v) options t dir = (Inr (), Some files') \<and>
           fst (fs_get B key now (Some files')) = Inr (if now \<ge> t + d then Undefined else Val v) \<and>
           fst (fs_has B key now (Some files')) = Inr (now < t + d)"
    if "fs_inv dir" "fs_getFilePath B key \<noteq> accessOrderFile"
  proof -
    from fs_set_stores[OF that, of "Val v" options t]
    obtain files' where s: "fs_set B key (Val v) options t dir = (Inr (), Some files')"
      "fs_inv (Some files')" "map_of files' (fs_getFilePath B key) = Some (EntryDoc ?e)" by blast
    from fs_get_after_set[OF s(2,3) that(2), of now] fs_has_after_set[OF s(2,3) that(2), of now] s(1) x v
    show ?thesis by (auto simp: not_le)
  qed
  show ?thesis using mem ls fs by blast
qed

theorem C4_expiry_boundary_witness:
  "(\<exists>s'. mem_set ''k'' (Val ''v'') \<lparr>ttl = Some 100, maxSize = None\<rparr> 0
            (MemoryAdapter_new no_options) = Some s' \<and>
          fst (mem_get ''k'' 150 s') = Undefined \<and> \<not> fst (mem_has ''k'' 150 s')) \<and>
   (\<exists>s'. mem_set ''k'' (Val ''v'') \<lparr>ttl = Some 100, maxSize = None\<rparr> 0
            (MemoryAdapter_new no_options) = Some s' \<and>
          fst (mem_get ''k'' 99 s') = Val ''v'' \<and> fst (mem_has ''k'' 99 s')) \<and>
   (\<exists>st'. ls_set (LocalStorageAdapter_new no_options None) ''k'' (Val ''v'')
             \<lparr>ttl = Some 100, maxSize = None\<rparr> 0
             (Some \<lparr>items = [], quota_ok = (\<lambda>xs. True)\<rparr>) = (Inr (), Some st') \<and>
           fst (ls_get (LocalStorageAdapter_new no_options None) ''k'' 100 (Some st')) = Inr Undefined) \<and>
   (\<exists>files'. fs_set (FileSystemAdapter_new no_options (\<lambda>k. ''0'' @ k)) ''k'' (Val ''v'')
             \<lparr>ttl = Some 100, maxSize = None\<rparr> 0 None = (Inr (), Some files') \<and>
           fst (fs_get (FileSystemAdapter_new no_options (\<lambda>k. ''0'' @ k)) ''k'' 99 (Some files'))
             = Inr (Val ''v''))"
proof -
  have 1: "ttl \<lparr>ttl = Some 100, maxSize = None\<rparr> = Some 100" "(100::int) \<noteq> 0" "(0::int) + 100 \<noteq> 0"
    by simp_all
  have m: "mem_inv (MemoryAdapter_new no_options :: string MemoryAdapter)" by (rule mem_inv_new)
  have l: "ls_ok (LocalStorageAdapter_new no_options None)
             (\<lparr>items = [], quota_ok = (\<lambda>xs. True)\<rparr> :: string localStorage)"
    by (simp add: ls_ok_def ls_getAccessOrder_def getItem_def)
  have f: "fs_inv (None :: string directory)" by (rule fs_inv_None)
  have p: "fs_getFilePath (FileSystemAdapter_new no_options (\<lambda>k. ''0'' @ k)) ''k'' \<noteq> accessOrderFile"
    by (simp add: fs_getFilePath_def FileSystemAdapter_new_def accessOrderFile_def)
  note T = C4_expiry_boundary[OF 1, where s = "MemoryAdapter_new no_options" and key = "''k''"
        and v = "''v''" and st = "\<lparr>items = [], quota_ok = (\<lambda>xs. True)\<rparr>"
        and A = "LocalStorageAdapter_new no_options None" and ?options0.0 = no_options and pfx = None
        and dir = None and B = "FileSystemAdapter_new no_options (\<lambda>k. ''0'' @ k)"]
  have a: "\<exists>s'. mem_set ''k'' (Val ''v'') \<lparr>ttl = Some 100, maxSize = None\<rparr> 0
            (MemoryAdapter_new no_options) = Some s' \<and>
          fst (mem_get ''k'' 150 s') = Undefined \<and> \<not> fst (mem_has ''k'' 150 s')"
    using T[of 150] m by auto
  have b: "\<exists>s'. mem_set ''k'' (Val ''v'') \<lparr>ttl = Some 100, maxSize = None\<rparr> 0
            (MemoryAdapter_new no_options) = Some s' \<and>
          fst (mem_get ''k'' 99 s') = Val ''v'' \<and> fst (mem_has ''k'' 99 s')"
    using T[of 99] m by auto
  have c: "\<exists>st'. ls_set (LocalStorageAdapter_new no_options None) ''k'' (Val ''v'')
             \<lparr>ttl = Some 100, maxSize = None\<rparr> 0
             (Some \<lparr>items = [], quota_ok = (\<lambda>xs. True)\<rparr>) = (Inr (), Some st') \<and>
           fst (ls_get (LocalStorageAdapter_new no_options None) ''k'' 100 (Some st')) = Inr Undefined"
    using T[of 100] l by auto
  have d: "\<exists>files'. fs_set (FileSystemAdapter_new no_options (\<lambda>k. ''0'' @ k)) ''k'' (Val ''v'')
             \<lparr>ttl = Some 100, maxSize = None\<rparr> 0 None = (Inr (), Some files') \<and>
           fst (fs_get (FileSystemAdapter_new no_options (\<lambda>k. ''0'' @ k)) ''k'' 99 (Some files'))
             = Inr (Val ''v'')"
    using T[of 99] f p by auto
  show ?thesis using a b c d by blast
qed

text \<open>
  The claim as stated fails for \<open>ttl = 0\<close>: the falsy \<open>ttl\<close> gives an entry with no
  expiry, which is still a hit at a time \<open>now \<ge> createdAt + 0\<close>.
\<close>

theorem C4_zero_ttl_counterexample:
  "mem_set ''k'' (Val ''v'') \<lparr>ttl = Some 0, maxSize = None\<rparr> 0 (MemoryAdapter_new no_options) =
     Some \<lparr>mem_store = [(''k'', \<lparr>entry_value = Val ''v'', timestamp = 0, expiry = None\<rparr>)],
           mem_maxSize = \<infinity>, mem_accessOrder = [''k'']\<rparr> \<and>
   (5::int) \<ge> 0 + 0 \<and>
   fst (mem_get ''k'' 5
     \<lparr>mem_store = [(''k'', \<lparr>entry_value = Val ''v'', timestamp = 0, expiry = None\<rparr>)],
      mem_maxSize = \<infinity>, mem_accessOrder = [''k'']\<rparr>) = Val ''v'' \<and>
   fst (mem_has ''k'' 5
     \<lparr>mem_store = [(''k'', \<lparr>entry_value = Val ''v'', timestamp = 0, expiry = None\<rparr>)],
      mem_maxSize = \<infinity>, mem_accessOrder = [''k'']\<rparr>)"
  by (simp add: mem_has_def mem_get_def isExpired_def mem_set_def mem_cleanup_def
      mem_purge_def MemoryAdapter_new_def no_options_def resolve_maxSize_def
      mem_evict_loop.simps mem_evict_for_def new_entry_def mem_updateAccessOrder_def)

section \<open>C7: corrupt data and missing entries\<close>

lemma ls_get_returns:
  fixes st :: "'v localStorage"
  assumes "ls_ok A st"
  shows "\<exists>r st'. ls_get A key now (Some st) = (Inr r, Some st') \<and> ls_ok A st'"
proof (cases "ls_map st (ls_getFullKey A key)")
  case None
  then show ?thesis using assms ls_get_absent[of st A key now] by auto
next
  case (Some raw)
  show ?thesis
  proof (cases "raw = EmptyText")
    case True
    then show ?thesis using assms Some ls_get_absent[of st A key now] by auto
  next
    case False
    show ?thesis
    proof (cases "parse_entry raw")
      case None
      with ls_get_purges[OF assms Some False, of now] show ?thesis by blast
    next
      case (Some e)
      show ?thesis
      proof (cases "isExpired now e")
        case True
        with ls_get_purges[OF assms \<open>ls_map st (ls_getFullKey A key) = Some raw\<close> False, of now] Some
        show ?thesis by blast
      next
        case nx: False
        from ls_get_hit[OF assms \<open>ls_map st (ls_getFullKey A key) = Some raw\<close> False Some nx]
        show ?thesis by blast
      qed
    qed
  qed
qed

lemma ls_has_returns:
  fixes st :: "'v localStorage"
  assumes "ls_ok A st"
  shows "\<exists>r st'. ls_has A key now (Some st) = (Inr r, Some st') \<and> ls_ok A st'"
  using ls_get_returns[OF assms, of key now] by (auto simp: ls_has_eq)

lemma ls_without_storage:
  "ls_get A key now None = (Inr Undefined, None)"
  "ls_has A key now None = (Inr False, None)"
  "ls_delete A key None = (Inr (), None)"
  "ls_clear A None = (Inr (), None)"
  "ls_set A key v options now None = (Inr (), None)"
  by (simp_all add: ls_get_def ls_has_eq ls_delete_def ls_clear_def ls_set_def ls_guard_def)

lemma fs_delete_returns: "\<exists>dir'. fs_delete A key dir = (Inr (), dir')"
  by (cases "io_bind (fs_unlink (fs_getFilePath A key))
          (\<lambda>_ dir. io_bind (as_array (fs_getAccessOrder dir))
             (\<lambda>order0. fs_setAccessOrder (filter (\<lambda>k. k \<noteq> key) order0)) dir) dir")
     (auto simp: fs_delete_def io_catch_apply io_return_apply split: sum.splits)

lemma fs_clear_returns: "\<exists>dir'. fs_clear dir = (Inr (), dir')"
  by (cases "io_bind fs_readdir
          (\<lambda>files. io_bind (fs_unlink_all files) (\<lambda>_. fs_setAccessOrder [])) dir")
     (auto simp: fs_clear_def io_catch_apply io_return_apply split: sum.splits)

lemma fs_has_returns: "\<exists>b dir'. fs_has A key now dir = (Inr b, dir')"
  using fs_get_returns[of A key now dir] by (auto simp: fs_has_eq)

lemma fs_delete_absent:
  "fs_map dir (fs_getFilePath A key) = None \<Longrightarrow> fs_delete A key dir = (Inr (), dir)"
  by (cases dir) (simp_all add: fs_delete_def io_simps fs_unlink_def fs_map_def)

lemma ls_order_after_purge:
  assumes "ls_map st' (ls_accessOrderKey A) = Some (OrderDoc (filter (\<lambda>k. k \<noteq> key) ks))"
  shows "key \<notin> set (ls_order A st')"
  using assms by (simp add: ls_order_def ls_getAccessOrder_OrderDoc)

text \<open>
  What holds of corrupt data. \<open>get\<close>, \<open>has\<close>, \<open>delete\<close> and \<open>clear\<close> never raise
  on the file adapter, whatever the directory holds, and never raise on the key/value
  adapter when the store accepts writes and its access-order document is absent,
  unreadable or an array. Unparseable data under a key gives a miss on \<open>get\<close> and
  false on \<open>has\<close>. The key/value adapter purges a non-empty unparseable text and the
  key's membership in the access order on that read. \<open>delete\<close> of a key with no
  file or no entry completes without error and leaves the entries as they were.
\<close>

lemma corrupt_data_reads_as_miss:
  fixes st :: "'v localStorage" and dir :: "'v directory" and s :: "'v MemoryAdapter"
  shows
    "(\<exists>r d. fs_get B key now dir = (Inr r, d)) \<and> (\<exists>r d. fs_has B key now dir = (Inr r, d)) \<and>
     (\<exists>d. fs_delete B key dir = (Inr (), d)) \<and> (\<exists>d. fs_clear dir = (Inr (), d)) \<and>
     (fs_map dir (fs_getFilePath B key) = Some raw \<and> parse_entry raw = None \<longrightarrow>
        fs_get B key now dir = (Inr Undefined, dir) \<and> fs_has B key now dir = (Inr False, dir)) \<and>
     (fs_map dir (fs_getFilePath B key) = None \<longrightarrow> fs_delete B key dir = (Inr (), dir)) \<and>
     (ls_ok A st \<longrightarrow>
        (\<exists>r st'. ls_get A key now (Some st) = (Inr r, Some st')) \<and>
        (\<exists>r st'. ls_has A key now (Some st) = (Inr r, Some st')) \<and>
        (\<exists>st'. ls_delete A key (Some st) = (Inr (), Some st') \<and>
           (\<forall>k. k \<noteq> ls_getFullKey A key \<and> k \<noteq> ls_accessOrderKey A \<longrightarrow> ls_map st' k = ls_map st k))) \<and>
     (\<exists>st'. ls_clear A (Some st) = (Inr (), st')) \<and>
     (ls_ok A st \<and> ls_map st (ls_getFullKey A key) = Some Garbage \<and>
      ls_getFullKey A key \<noteq> ls_accessOrderKey A \<longrightarrow>
        (\<exists>st'. ls_get A key now (Some st) = (Inr Undefined, Some st') \<and>
           ls_map st' (ls_getFullKey A key) = None \<and> key \<notin> set (ls_order A st')) \<and>
        fst (ls_has A key now (Some st)) = Inr False) \<and>
     (ls_map st (ls_getFullKey A key) = Some EmptyText \<longrightarrow>
        ls_get A key now (Some st) = (Inr Undefined, Some st) \<and>
        ls_has A key now (Some st) = (Inr False, Some st)) \<and>
     (map_of (mem_store s) key = None \<longrightarrow> mem_store (mem_delete key s) = mem_store s)"
proof -
  have f1: "fs_get B key now dir = (Inr Undefined, dir) \<and> fs_has B key now dir = (Inr False, dir)"
    if "fs_map dir (fs_getFilePath B key) = Some raw \<and> parse_entry raw = None"
  proof -
    from that obtain files where d: "dir = Some files" by (cases dir) (auto simp: fs_map_def)
    with that have "fs_get B key now dir = (Inr Undefined, dir)"
      using fs_get_malformed[of dir B key raw now] by (simp add: fs_map_def fs_files_def)
    then show ?thesis by (simp add: fs_has_eq)
  qed
  have l1: "(\<exists>r st'. ls_get A key now (Some st) = (Inr r, Some st')) \<and>
        (\<exists>r st'. ls_has A key now (Some st) = (Inr r, Some st')) \<and>
        (\<exists>st'. ls_delete A key (Some st) = (Inr (), Some st') \<and>
           (\<forall>k. k \<noteq> ls_getFullKey A key \<and> k \<noteq> ls_accessOrderKey A \<longrightarrow> ls_map st' k = ls_map st k))"
    if "ls_ok A st"
    using ls_get_returns[OF that, of key now] ls_has_returns[OF that, of key now]
      ls_delete_ok[OF that, of key]
    by (auto simp: fun_upd_def)
  have l2: "(\<exists>st'. ls_get A key now (Some st) = (Inr Undefined, Some st') \<and>
           ls_map st' (ls_getFullKey A key) = None \<and> key \<notin> set (ls_order A st')) \<and>
        fst (ls_has A key now (Some st)) = Inr False"
    if "ls_ok A st \<and> ls_map st (ls_getFullKey A key) = Some Garbage \<and>
        ls_getFullKey A key \<noteq> ls_accessOrderKey A"
  proof -
    from that have ok: "ls_ok A st" and g: "ls_map st (ls_getFullKey A key) = Some Garbage"
      and ne: "ls_getFullKey A key \<noteq> ls_accessOrderKey A" by simp_all
    from ls_get_purges[OF ok g, of now] obtain st' where
      p: "ls_get A key now (Some st) = (Inr Undefined, Some st')"
         "ls_map st' = (ls_map st)(ls_getFullKey A key := None,
              ls_accessOrderKey A \<mapsto>
                OrderDoc (filter (\<lambda>k. k \<noteq> key) (ls_order A (removeItem (ls_getFullKey A key) st))))"
      by (auto simp: parse_entry_def)
    have "ls_map st' (ls_getFullKey A key) = None" using ne by (simp add: p(2))
    moreover have "key \<notin> set (ls_order A st')"
      by (rule ls_order_after_purge[of st' A key]) (simp add: p(2))
    ultimately show ?thesis using p(1) by (simp add: ls_has_eq)
  qed
  have l3: "ls_get A key now (Some st) = (Inr Undefined, Some st) \<and>
        ls_has A key now (Some st) = (Inr False, Some st)"
    if "ls_map st (ls_getFullKey A key) = Some EmptyText"
    using ls_get_absent[of st A key now] that by (simp add: ls_has_eq)
  have c: "\<exists>st'. ls_clear A (Some st) = (Inr (), st')"
    using ls_clear_empties[of A st] by blast
  have m: "mem_store (mem_delete key s) = mem_store s" if "map_of (mem_store s) key = None"
  proof -
    from that have "key \<notin> fst ` set (mem_store s)"
      by (metis domIff dom_map_of_conv_image_fst)
    then show ?thesis by (simp add: mem_delete_def mem_remove_def)
  qed
  show ?thesis
    using fs_get_returns[of B key now dir] fs_has_returns[of B key now dir]
      fs_delete_returns[of B key dir] fs_clear_returns[of dir] f1 fs_delete_absent[of dir B key]
      l1 l2 l3 c m
    by (intro conjI impI) blast+
qed

lemma corrupt_data_reads_as_miss_instance:
  "fs_get (FileSystemAdapter_new no_options (\<lambda>k. ''0'' @ k)) ''k'' 0
      (Some [(''0k.json'', (Garbage :: nat doc))]) =
     (Inr Undefined, Some [(''0k.json'', Garbage)]) \<and>
   fs_delete (FileSystemAdapter_new no_options (\<lambda>k. ''0'' @ k)) ''z''
      (Some [(''0k.json'', (Garbage :: nat doc))]) = (Inr (), Some [(''0k.json'', Garbage)]) \<and>
   (\<exists>st'. ls_get (LocalStorageAdapter_new no_options None) ''k'' 0
             (Some \<lparr>items = [(''cache:k'', (Garbage :: nat doc)),
                              (''cache:__access_order'', OrderDoc [''k''])],
                    quota_ok = (\<lambda>xs. True)\<rparr>) = (Inr Undefined, Some st') \<and>
           ls_map st' ''cache:k'' = None \<and>
           ''k'' \<notin> set (ls_order (LocalStorageAdapter_new no_options None) st')) \<and>
   (\<exists>st'. ls_delete (LocalStorageAdapter_new no_options None) ''z''
             (Some \<lparr>items = [(''cache:k'', (Garbage :: nat doc)),
                              (''cache:__access_order'', OrderDoc [''k''])],
                    quota_ok = (\<lambda>xs. True)\<rparr>) = (Inr (), Some st') \<and>
           ls_map st' ''cache:k'' = Some Garbage) \<and>
   mem_store (mem_delete ''z'' (MemoryAdapter_new no_options :: nat MemoryAdapter)) = []"
proof -
  let ?B = "FileSystemAdapter_new no_options (\<lambda>k. ''0'' @ k)"
  let ?A = "LocalStorageAdapter_new no_options None"
  let ?st = "\<lparr>items = [(''cache:k'', (Garbage :: nat doc)), (''cache:__access_order'', OrderDoc [''k''])],
              quota_ok = (\<lambda>xs. True)\<rparr>"
  let ?dir = "Some [(''0k.json'', (Garbage :: nat doc))]"
  note T = corrupt_data_reads_as_miss[where B = ?B and A = ?A and st = ?st and dir = ?dir
      and now = 0 and s = "MemoryAdapter_new no_options" and raw = Garbage]
  have ok: "ls_ok ?A ?st"
    by (simp add: ls_ok_def ls_getAccessOrder_def getItem_def LocalStorageAdapter_new_def)
  have fk: "ls_getFullKey ?A ''k'' = ''cache:k''" "ls_getFullKey ?A ''z'' = ''cache:z''"
    "ls_accessOrderKey ?A = ''cache:__access_order''"
    by (simp_all add: ls_getFullKey_def LocalStorageAdapter_new_def)
  have g: "ls_map ?st (ls_getFullKey ?A ''k'') = Some Garbage"
    by (simp add: fk ls_map_def)
  have f: "fs_map ?dir (fs_getFilePath ?B ''k'') = Some Garbage \<and> parse_entry (Garbage :: nat doc) = None"
    by (simp add: fs_map_def fs_getFilePath_def FileSystemAdapter_new_def parse_entry_def)
  have z: "fs_map ?dir (fs_getFilePath ?B ''z'') = None"
    by (simp add: fs_map_def fs_getFilePath_def FileSystemAdapter_new_def)
  have m: "map_of (mem_store (MemoryAdapter_new no_options :: nat MemoryAdapter)) ''z'' = None"
    by (simp add: MemoryAdapter_new_def)
  have 1: "fs_get ?B ''k'' 0 ?dir = (Inr Undefined, ?dir)"
    using T[of "''k''"] f by blast
  have 2: "fs_delete ?B ''z'' ?dir = (Inr (), ?dir)"
    using T[of "''z''"] z by blast
  have 3: "\<exists>st'. ls_get ?A ''k'' 0 (Some ?st) = (Inr Undefined, Some st') \<and>
           ls_map st' ''cache:k'' = None \<and> ''k'' \<notin> set (ls_order ?A st')"
    using T[of "''k''"] ok g by (simp add: fk)
  have 4: "\<exists>st'. ls_delete ?A ''z'' (Some ?st) = (Inr (), Some st') \<and> ls_map st' ''cache:k'' = Some Garbage"
  proof -
    from T[of "''z''"] ok obtain st' where
      d: "ls_delete ?A ''z'' (Some ?st) = (Inr (), Some st')"
      "\<forall>k. k \<noteq> ls_getFullKey ?A ''z'' \<and> k \<noteq> ls_accessOrderKey ?A \<longrightarrow> ls_map st' k = ls_map ?st k"
      by blast
    from d(2) have "ls_map st' ''cache:k'' = ls_map ?st ''cache:k''" by (simp add: fk)
    with d(1) show ?thesis by (simp add: ls_map_def)
  qed
  have 5: "mem_store (mem_delete ''z'' (MemoryAdapter_new no_options :: nat MemoryAdapter)) = []"
    using T[of "''z''"] m by (simp add: MemoryAdapter_new_def)
  show ?thesis using 1 2 3 4 5 by blast
qed

text \<open>
  C7. \<open>get\<close>, \<open>has\<close>, \<open>delete\<close> and \<open>clear\<close> are never to raise, whatever data is
  stored, and corrupt data under a key is to be purged on the read that meets it.
  The key/value adapter raises: \<open>getAccessOrder\<close> guards \<open>JSON.parse\<close> only, so an
  access-order document that parses to something other than an array (here an
  object) reaches \<open>.filter\<close>, and \<open>delete\<close>, \<open>get\<close> and \<open>has\<close> throw a
  \<open>TypeError\<close>; the \<open>get\<close> that throws has removed the live entry it was asked for.
  The adapter reaches that state by itself, with \<open>set(''__access_order'', v)\<close>, which
  writes the entry over the document. On the file adapter \<open>get\<close> on a corrupt file
  reports the miss and leaves the file and its access-order membership where they
  are, where the key/value adapter purges both.
\<close>

theorem C7_object_order_document_raises:
  "fst (ls_delete (LocalStorageAdapter_new no_options None) ''x''
      (Some \<lparr>items = [(''cache:__access_order'',
                         (EntryDoc \<lparr>entry_value = Undefined, timestamp = 0, expiry = None\<rparr> :: nat doc))],
             quota_ok = (\<lambda>xs. True)\<rparr>)) = Inl TypeError \<and>
   fst (ls_get (LocalStorageAdapter_new no_options None) ''k'' 5
      (Some \<lparr>items = [(''cache:k'', EntryDoc \<lparr>entry_value = Val (7::nat), timestamp = 0, expiry = None\<rparr>),
                       (''cache:__access_order'',
                         EntryDoc \<lparr>entry_value = Undefined, timestamp = 0, expiry = None\<rparr>)],
             quota_ok = (\<lambda>xs. True)\<rparr>)) = Inl TypeError \<and>
   fst (ls_has (LocalStorageAdapter_new no_options None) ''k'' 5
      (Some \<lparr>items = [(''cache:k'', EntryDoc \<lparr>entry_value = Val (7::nat), timestamp = 0, expiry = None\<rparr>),
                       (''cache:__access_order'',
                         EntryDoc \<lparr>entry_value = Undefined, timestamp = 0, expiry = None\<rparr>)],
             quota_ok = (\<lambda>xs. True)\<rparr>)) = Inl TypeError \<and>
   fst (ls_run (LocalStorageAdapter_new no_options None)
      [(0, Set ''k'' (Val (7::nat)) no_options), (1, Set ''__access_order'' (Val 1) no_options),
       (2, Get ''k''), (3, Has ''k''), (4, Delete ''x'')]
      (Some \<lparr>items = [], quota_ok = (\<lambda>xs. True)\<rparr>))
     = [Done, Raised TypeError, Raised TypeError, Answer False, Raised TypeError] \<and>
   fs_get (FileSystemAdapter_new no_options (\<lambda>k. ''0'' @ k)) ''k'' 0
      (Some [(''0k.json'', (Garbage :: nat doc)), (''__access_order.json'', OrderDoc [''k''])]) =
     (Inr Undefined, Some [(''0k.json'', Garbage), (''__access_order.json'', OrderDoc [''k''])]) \<and>
   map_option items (snd (ls_get (LocalStorageAdapter_new no_options None) ''k'' 0
      (Some \<lparr>items = [(''cache:k'', (Garbage :: nat doc)), (''cache:__access_order'', OrderDoc [''k''])],
             quota_ok = (\<lambda>xs. True)\<rparr>))) = Some [(''cache:__access_order'', OrderDoc [])]"
  by code_simp

section \<open>The volatile adapter: the store after set\<close>


lemma mem_purge_store_live:
  "distinct (map fst (mem_store s)) \<Longrightarrow>
   mem_store (mem_purge now s) = filter (\<lambda>p. \<not> isExpired now (snd p)) (mem_store s)"
  by (simp add: mem_purge_store) (rule filter_cong, auto)



section \<open>Agreement with the unbounded cache of the specification\<close>

lemma isExpired_mono: "isExpired t e \<Longrightarrow> t \<le> t' \<Longrightarrow> isExpired t' e"
  by (auto simp: isExpired_def split: option.splits if_splits)

lemma agree_on_refl: "agree_on K t a a"
  by (simp add: agree_on_def)

lemma agree_on_trans: "agree_on K t a b \<Longrightarrow> agree_on K t b c \<Longrightarrow> agree_on K t a c"
  by (simp add: agree_on_def)

lemma agree_on_later: "agree_on K t a m \<Longrightarrow> t \<le> t' \<Longrightarrow> agree_on K t' a m"
  by (simp add: agree_on_def)

lemma agree_on_lookup:
  "agree_on K t a m \<Longrightarrow> t \<le> now \<Longrightarrow> k \<in> K \<Longrightarrow> ideal_lookup now a k = ideal_lookup now m k"
  by (simp add: agree_on_def ideal_lookup_def)

lemma ideal_step_agree:
  assumes "agree_on K t a m" and "t \<le> now" and "op_keys c \<subseteq> K"
  shows "fst (ideal_step c now a) = fst (ideal_step c now m)"
    and "agree_on K now (snd (ideal_step c now a)) (snd (ideal_step c now m))"
proof -
  show "fst (ideal_step c now a) = fst (ideal_step c now m)"
    using assms by (cases c) (auto simp: agree_on_lookup)
  show "agree_on K now (snd (ideal_step c now a)) (snd (ideal_step c now m))"
    using agree_on_later[OF assms(1,2)] by (cases c) (auto simp: agree_on_def)
qed

text \<open>A live-preserving change: what \<open>a'\<close> holds live from \<open>now\<close> on is what \<open>a\<close> held.\<close>

lemma agree_on_purged:
  assumes "\<And>k. k \<in> K \<Longrightarrow> a' k = a k \<or> (a' k = None \<and> live_at now (a k) = None)"
  shows "agree_on K now a' a"
  unfolding agree_on_def
proof (intro allI impI ballI)
  fix t' k assume t: "now \<le> t'" and k: "k \<in> K"
  from assms[OF k] show "live_at t' (a' k) = live_at t' (a k)"
  proof
    assume "a' k = a k" then show ?thesis by simp
  next
    assume x: "a' k = None \<and> live_at now (a k) = None"
    then have "live_at t' (a k) = None"
      using t by (auto simp: live_at_def split: option.splits if_splits dest: isExpired_mono)
    with x show ?thesis by (simp add: live_at_def)
  qed
qed

section \<open>The volatile adapter without a bound\<close>

lemma map_of_filter_live:
  "distinct (map fst xs) \<Longrightarrow>
   map_of (filter (\<lambda>p. \<not> isExpired now (snd p)) xs) k = live_at now (map_of xs k)"
proof (induction xs)
  case Nil
  then show ?case by (simp add: live_at_def)
next
  case (Cons x xs)
  obtain a e where x: "x = (a, e)" by (cases x)
  have "a \<notin> fst ` set xs" using Cons.prems x by auto
  then have "a \<notin> fst ` set (filter (\<lambda>p. \<not> isExpired now (snd p)) xs)" by auto
  then have n: "map_of (filter (\<lambda>p. \<not> isExpired now (snd p)) xs) a = None"
    by (simp add: map_of_eq_None_iff)
  show ?case
  proof (cases "k = a")
    case True
    then show ?thesis using n x by (simp add: live_at_def)
  next
    case False
    then show ?thesis using Cons x by simp
  qed
qed

lemma mem_unb_new:
  "resolve_maxSize options = \<infinity> \<Longrightarrow> mem_unb (MemoryAdapter_new options)"
  by (simp add: mem_unb_def MemoryAdapter_new_def)

lemma mem_unb_remove: "mem_unb s \<Longrightarrow> mem_unb (mem_remove key s)"
  by (auto simp: mem_unb_def mem_remove_def delete_filter distinct_map_filter)

lemma mem_abs_remove: "mem_abs (mem_remove key s) = (mem_abs s)(key := None)"
  by (simp add: mem_abs_def mem_remove_def delete_conv')

lemma mem_abs_updateAccessOrder: "mem_abs (mem_updateAccessOrder key s) = mem_abs s"
  by (simp add: mem_abs_def mem_updateAccessOrder_def)

lemma mem_unb_updateAccessOrder: "mem_unb s \<Longrightarrow> mem_unb (mem_updateAccessOrder key s)"
  by (simp add: mem_unb_def mem_updateAccessOrder_def)

lemma mem_unb_defined:
  "mem_unb s \<Longrightarrow> mem_abs s k = Some e \<Longrightarrow> entry_value e \<noteq> Undefined"
  by (auto simp: mem_unb_def mem_abs_def dest!: map_of_SomeD)

lemma mem_set_unbounded:
  fixes s :: "'v MemoryAdapter"
  assumes "mem_unb s" and "v \<noteq> Undefined"
  shows "\<exists>s'. mem_set key v options now s = Some s' \<and> mem_unb s' \<and>
           mem_abs s' = (\<lambda>k. live_at now (mem_abs s k))(key \<mapsto> new_entry now v options)"
proof -
  let ?p = "mem_purge now s"
  have d: "distinct (map fst (mem_store s))" and m: "mem_maxSize s = \<infinity>"
    using assms(1) by (simp_all add: mem_unb_def)
  have st: "mem_store ?p = filter (\<lambda>p. \<not> isExpired now (snd p)) (mem_store s)"
    by (rule mem_purge_store_live[OF d])
  have c: "mem_cleanup now s = Some ?p"
    unfolding mem_cleanup_def by (rule mem_evict_loop_done) (simp add: mem_purge_maxSize m)
  have e: "mem_evict_for key ?p = ?p"
    by (simp add: mem_evict_for_def mem_purge_maxSize m)
  let ?s' = "mem_updateAccessOrder key
               (?p\<lparr>mem_store := AList.update key (new_entry now v options) (mem_store ?p)\<rparr>)"
  have s': "mem_set key v options now s = Some ?s'"
    by (simp add: mem_set_def c e Let_def)
  have "mem_unb ?s'"
    using assms d set_update_subset[of key "new_entry now v options" "mem_store ?p"]
    by (auto simp: mem_unb_def mem_updateAccessOrder_def mem_purge_maxSize st distinct_update
          distinct_map_filter new_entry_def)
  moreover have "mem_abs ?s' = (\<lambda>k. live_at now (mem_abs s k))(key \<mapsto> new_entry now v options)"
    by (rule ext) (simp add: mem_abs_def mem_updateAccessOrder_def update_conv' st map_of_filter_live[OF d])
  ultimately show ?thesis using s' by blast
qed

lemma agree_on_set_purged:
  "agree_on K now ((\<lambda>k. live_at now (a k))(key \<mapsto> e)) (a(key \<mapsto> e))"
  by (rule agree_on_purged) (auto simp: live_at_def split: option.splits)

lemma agree_on_expired_removed:
  "live_at now (a key) = None \<Longrightarrow> agree_on K now (a(key := None)) a"
  by (rule agree_on_purged) auto

lemma mem_step_ideal:
  fixes s :: "'v MemoryAdapter"
  assumes "mem_unb s" and "stores_value c"
  shows "\<exists>r s'. mem_step c now s = Some (r, s') \<and> mem_unb s' \<and>
           r = fst (ideal_step c now (mem_abs s)) \<and>
           agree_on UNIV now (mem_abs s') (snd (ideal_step c now (mem_abs s)))"
proof (cases c)
  case (Get key)
  show ?thesis
  proof (cases "mem_abs s key")
    case None
    then show ?thesis
      using assms Get
      by (simp add: mem_get_def mem_abs_def[symmetric] ideal_lookup_def live_at_def agree_on_refl)
  next
    case (Some e)
    then show ?thesis
      using assms Get
      by (auto simp: mem_get_def mem_abs_def[symmetric] ideal_lookup_def live_at_def agree_on_refl
            mem_unb_remove mem_abs_remove mem_unb_updateAccessOrder mem_abs_updateAccessOrder
            intro!: agree_on_expired_removed)
  qed
next
  case (Set key v options)
  with assms have v: "v \<noteq> Undefined" by simp
  from mem_set_unbounded[OF assms(1) v, of key options now] Set show ?thesis
    by (auto simp: agree_on_set_purged)
next
  case (Delete key)
  then show ?thesis
    using assms by (simp add: mem_delete_def mem_unb_remove mem_abs_remove agree_on_refl)
next
  case Clear
  then show ?thesis
    using assms by (simp add: mem_clear_def mem_unb_def mem_abs_def agree_on_refl)
next
  case (Has key)
  show ?thesis
  proof (cases "mem_abs s key")
    case None
    then show ?thesis
      using assms Has
      by (simp add: mem_has_def mem_abs_def[symmetric] ideal_lookup_def live_at_def agree_on_refl)
  next
    case (Some e)
    then show ?thesis
      using assms Has mem_unb_defined[OF assms(1) Some]
      by (auto simp: mem_has_def mem_abs_def[symmetric] ideal_lookup_def live_at_def agree_on_refl
            mem_unb_remove mem_abs_remove intro!: agree_on_expired_removed)
  qed
qed

lemma mem_run_ideal:
  fixes s :: "'v MemoryAdapter"
  assumes "mem_unb s" and "agree_on UNIV t (mem_abs s) m"
    and "\<forall>c \<in> set ops. stores_value (snd c)" and "nondecreasing t ops"
  shows "\<exists>s'. mem_run ops s = Some (fst (ideal_run ops m), s')"
  using assms
proof (induction ops arbitrary: s m t)
  case Nil
  then show ?case by simp
next
  case (Cons x ops)
  obtain now c where x: "x = (now, c)" by (cases x)
  from Cons.prems x have t: "t \<le> now" and nd: "nondecreasing now ops"
    and sv: "stores_value c" and svs: "\<forall>c \<in> set ops. stores_value (snd c)"
    by simp_all
  from mem_step_ideal[OF Cons.prems(1) sv, of now] obtain r s1 where
    st: "mem_step c now s = Some (r, s1)" "mem_unb s1"
        "r = fst (ideal_step c now (mem_abs s))"
        "agree_on UNIV now (mem_abs s1) (snd (ideal_step c now (mem_abs s)))"
    by blast
  note ag = ideal_step_agree[OF Cons.prems(2) t, of c]
  have r: "r = fst (ideal_step c now m)" using st(3) ag(1) by simp
  have a1: "agree_on UNIV now (mem_abs s1) (snd (ideal_step c now m))"
    using agree_on_trans[OF st(4) ag(2)] by simp
  from Cons.IH[OF st(2) a1 svs nd] obtain s' where
    "mem_run ops s1 = Some (fst (ideal_run ops (snd (ideal_step c now m))), s')" by blast
  then show ?case
    using st(1) r x by (simp split: prod.splits)
qed

section \<open>The key/value adapter without a bound\<close>

lemma agree_on_eqI: "(\<And>k. k \<in> K \<Longrightarrow> a k = m k) \<Longrightarrow> agree_on K t a m"
  by (simp add: agree_on_def)

lemma plain_fullKey:
  "ls_wf A \<Longrightarrow> k \<in> plain_keys \<Longrightarrow> ls_getFullKey A k \<noteq> ls_accessOrderKey A"
  by (simp add: plain_keys_def ls_fullKey_neq_reserved)

lemma ls_abs_upd_order:
  assumes "ls_wf A" and "k \<in> plain_keys"
    and "ls_map st' = (ls_map st)(ls_accessOrderKey A \<mapsto> d)"
  shows "ls_abs A st' k = ls_abs A st k"
  using plain_fullKey[OF assms(1,2)] by (simp add: ls_abs_def assms(3))

lemma ls_abs_removed:
  assumes "ls_wf A" and "k \<in> plain_keys"
    and "ls_map st' = (ls_map st)(ls_getFullKey A key := None, ls_accessOrderKey A \<mapsto> d)"
  shows "ls_abs A st' k = ((ls_abs A st)(key := None)) k"
  using plain_fullKey[OF assms(1,2)] by (simp add: ls_abs_def assms(3) ls_fullKey_inj)

lemma ls_abs_stored:
  assumes "ls_wf A" and "k \<in> plain_keys"
    and "ls_map st' = ((ls_map st)(ls_getFullKey A key \<mapsto> EntryDoc e))(ls_accessOrderKey A \<mapsto> d)"
  shows "ls_abs A st' k = ((ls_abs A st)(key \<mapsto> e)) k"
  using plain_fullKey[OF assms(1,2)] by (simp add: ls_abs_def assms(3) ls_fullKey_inj)

lemma ls_get_ideal:
  fixes st :: "'v localStorage"
  assumes "ls_unb A st" and "key \<in> plain_keys"
  shows "\<exists>st'. ls_get A key now (Some st) = (Inr (ideal_lookup now (ls_abs A st) key), Some st') \<and>
           ls_unb A st' \<and> agree_on plain_keys now (ls_abs A st') (ls_abs A st)"
proof -
  from assms(1) have ok: "ls_ok A st" and wf: "ls_wf A" and inf: "ls_maxSize A = \<infinity>"
    by (simp_all add: ls_unb_def)
  show ?thesis
  proof (cases "ls_map st (ls_getFullKey A key)")
    case None
    then show ?thesis
      using ls_get_absent[of st A key now] assms(1)
      by (simp add: ideal_lookup_def live_at_def ls_abs_def agree_on_refl)
  next
    case (Some raw)
    show ?thesis
    proof (cases "raw = EmptyText")
      case True
      then show ?thesis
        using ls_get_absent[of st A key now] assms(1) Some
        by (simp add: ideal_lookup_def live_at_def ls_abs_def agree_on_refl)
    next
      case ne: False
      show ?thesis
      proof (cases "parse_entry raw = None \<or> (\<exists>e. parse_entry raw = Some e \<and> isExpired now e)")
        case True
        from ls_get_purges[OF ok Some ne True] obtain st' where
          g: "ls_get A key now (Some st) = (Inr Undefined, Some st')" "ls_ok A st'"
             "ls_map st' = (ls_map st)(ls_getFullKey A key := None,
                ls_accessOrderKey A \<mapsto>
                  OrderDoc (filter (\<lambda>k. k \<noteq> key) (ls_order A (removeItem (ls_getFullKey A key) st))))"
          by blast
        have l: "live_at now (ls_abs A st key) = None"
          using True Some by (cases raw) (auto simp: ls_abs_def live_at_def parse_entry_def)
        have "agree_on plain_keys now (ls_abs A st') ((ls_abs A st)(key := None))"
          by (rule agree_on_eqI) (rule ls_abs_removed[OF wf _ g(3)])
        then have "agree_on plain_keys now (ls_abs A st') (ls_abs A st)"
          by (rule agree_on_trans) (rule agree_on_expired_removed[where a = "ls_abs A st" and key = key, OF l])
        then show ?thesis
          using g(1,2) wf inf l by (auto simp: ls_unb_def ideal_lookup_def)
      next
        case False
        then obtain e where e: "parse_entry raw = Some e" "\<not> isExpired now e" by auto
        from ls_get_hit[OF ok Some ne e] inf obtain st' where
          g: "ls_get A key now (Some st) = (Inr (entry_value e), Some st')" "ls_ok A st'"
             "ls_map st' = (ls_map st)(ls_accessOrderKey A \<mapsto>
                OrderDoc (filter (\<lambda>k. k \<noteq> key) (ls_order A st) @ [key]))"
          by auto
        have v: "ideal_lookup now (ls_abs A st) key = entry_value e"
          using e Some ne
          by (cases raw) (auto simp: ls_abs_def ideal_lookup_def live_at_def parse_entry_def)
        have "agree_on plain_keys now (ls_abs A st') (ls_abs A st)"
          by (rule agree_on_eqI) (rule ls_abs_upd_order[OF wf _ g(3)])
        then show ?thesis
          using g(1,2) wf inf v by (auto simp: ls_unb_def)
      qed
    qed
  qed
qed

lemma ls_clear_result:
  "ls_clear A (Some st) = (Inr (), Some (st\<lparr>items := []\<rparr>))"
proof -
  have q: "quota_ok (fold removeItem ks st) = quota_ok st" for ks
    by (induction ks arbitrary: st) (simp_all add: removeItem_def)
  have "storage_clear (removeItem (ls_accessOrderKey A)
          (fold removeItem (filter (prefix (ls_prefix A)) (map fst (items st))) st)) =
        st\<lparr>items := []\<rparr>"
    by (rule localStorage.equality) (simp_all add: storage_clear_def removeItem_def q)
  then show ?thesis
    by (simp add: ls_clear_def ls_guard_def Let_def)
qed

lemma ls_step_ideal:
  fixes st :: "'v localStorage"
  assumes "ls_unb A st" and "op_keys c \<subseteq> plain_keys"
  shows "\<exists>r st'. ls_step A c now (Some st) = (r, Some st') \<and> ls_unb A st' \<and>
           r = fst (ideal_step c now (ls_abs A st)) \<and>
           agree_on plain_keys now (ls_abs A st') (snd (ideal_step c now (ls_abs A st)))"
proof -
  from assms(1) have ok: "ls_ok A st" and wf: "ls_wf A" and inf: "ls_maxSize A = \<infinity>"
    by (simp_all add: ls_unb_def)
  show ?thesis
  proof (cases c)
    case (Get key)
    with assms(2) have k: "key \<in> plain_keys" by simp
    from ls_get_ideal[OF assms(1) k, of now] Get show ?thesis
      by (auto simp: reply_of_def)
  next
    case (Has key)
    with assms(2) have k: "key \<in> plain_keys" by simp
    from ls_get_ideal[OF assms(1) k, of now] Has show ?thesis
      by (auto simp: reply_of_def ls_has_eq)
  next
    case (Set key v options)
    with assms(2) have k: "key \<in> plain_keys" by simp
    from ls_set_ok[OF ok plain_fullKey[OF wf k], of v options now] inf obtain st' where
      s: "ls_set A key v options now (Some st) = (Inr (), Some st')" "ls_ok A st'"
         "ls_map st' = ((ls_map st)(ls_getFullKey A key \<mapsto> EntryDoc (new_entry now v options)))
                         (ls_accessOrderKey A \<mapsto> OrderDoc (filter (\<lambda>k. k \<noteq> key) (ls_order A st) @ [key]))"
      by auto
    have "agree_on plain_keys now (ls_abs A st') ((ls_abs A st)(key \<mapsto> new_entry now v options))"
      by (rule agree_on_eqI) (rule ls_abs_stored[OF wf _ s(3)])
    then show ?thesis
      using s(1,2) wf inf Set by (auto simp: reply_of_def ls_unb_def)
  next
    case (Delete key)
    from ls_delete_ok[OF ok, of key] obtain st' where
      d: "ls_delete A key (Some st) = (Inr (), Some st')" "ls_ok A st'"
         "ls_map st' = (ls_map st)(ls_getFullKey A key := None,
              ls_accessOrderKey A \<mapsto>
                OrderDoc (filter (\<lambda>k. k \<noteq> key) (ls_order A (removeItem (ls_getFullKey A key) st))))"
      by blast
    have "agree_on plain_keys now (ls_abs A st') ((ls_abs A st)(key := None))"
      by (rule agree_on_eqI) (rule ls_abs_removed[OF wf _ d(3)])
    then show ?thesis
      using d(1,2) wf inf Delete by (auto simp: reply_of_def ls_unb_def)
  next
    case Clear
    have "ls_ok A (st\<lparr>items := []\<rparr>)"
      using ok by (simp add: ls_ok_def ls_getAccessOrder_def getItem_def)
    moreover have "agree_on plain_keys now (ls_abs A (st\<lparr>items := []\<rparr>)) (\<lambda>k. None)"
      by (rule agree_on_eqI) (simp add: ls_abs_def ls_map_def)
    ultimately show ?thesis
      using Clear wf inf by (simp add: reply_of_def ls_clear_result ls_unb_def)
  qed
qed

lemma ls_run_ideal:
  fixes st :: "'v localStorage"
  assumes "ls_unb A st" and "agree_on plain_keys t (ls_abs A st) m"
    and "\<forall>c \<in> set ops. op_keys (snd c) \<subseteq> plain_keys" and "nondecreasing t ops"
  shows "\<exists>st'. ls_run A ops (Some st) = (fst (ideal_run ops m), Some st')"
  using assms
proof (induction ops arbitrary: st m t)
  case Nil
  then show ?case by simp
next
  case (Cons x ops)
  obtain now c where x: "x = (now, c)" by (cases x)
  from Cons.prems x have t: "t \<le> now" and nd: "nondecreasing now ops"
    and k: "op_keys c \<subseteq> plain_keys" and ks: "\<forall>c \<in> set ops. op_keys (snd c) \<subseteq> plain_keys"
    by simp_all
  from ls_step_ideal[OF Cons.prems(1) k, of now] obtain r st1 where
    st: "ls_step A c now (Some st) = (r, Some st1)" "ls_unb A st1"
        "r = fst (ideal_step c now (ls_abs A st))"
        "agree_on plain_keys now (ls_abs A st1) (snd (ideal_step c now (ls_abs A st)))"
    by blast
  note ag = ideal_step_agree[OF Cons.prems(2) t k]
  have r: "r = fst (ideal_step c now m)" using st(3) ag(1) by simp
  have a1: "agree_on plain_keys now (ls_abs A st1) (snd (ideal_step c now m))"
    using agree_on_trans[OF st(4) ag(2)] by simp
  from Cons.IH[OF st(2) a1 ks nd] obtain st' where
    "ls_run A ops (Some st1) = (fst (ideal_run ops (snd (ideal_step c now m))), Some st')" by blast
  then show ?case
    using st(1) r x by (simp split: prod.splits)
qed

section \<open>The file adapter without a bound\<close>

lemma fs_path_neq_index:
  "fs_keys_ok B K \<Longrightarrow> k \<in> K \<Longrightarrow> fs_getFilePath B k \<noteq> accessOrderFile"
  by (auto simp: fs_keys_ok_def fs_getFilePath_def accessOrderFile_def)

lemma fs_path_inj:
  "fs_keys_ok B K \<Longrightarrow> k \<in> K \<Longrightarrow> k' \<in> K \<Longrightarrow>
   fs_getFilePath B k = fs_getFilePath B k' \<longleftrightarrow> k = k'"
  by (auto simp: fs_keys_ok_def fs_getFilePath_def dest: inj_onD)

lemma map_of_filter_key:
  "map_of (filter (\<lambda>p. Q (fst p)) xs) n = (if Q n then map_of xs n else None)"
  by (induction xs) auto

lemma fs_map_files: "fs_map (Some (fs_files dir)) = fs_map dir"
  by (cases dir) (simp_all add: fs_map_def fs_files_def)

lemma fs_abs_files: "fs_abs B (Some (fs_files dir)) = fs_abs B dir"
  by (rule ext) (simp add: fs_abs_def fs_map_files)

lemma fs_inv_files: "fs_inv dir \<Longrightarrow> fs_inv (Some (fs_files dir))"
  by (cases dir) (simp_all add: fs_inv_def fs_files_def fs_getAccessOrder_def fs_readFile_def)

lemma fs_abs_upd_order:
  assumes "fs_keys_ok B K" and "k \<in> K"
  shows "fs_abs B (Some (AList.update accessOrderFile d files)) k = fs_abs B (Some files) k"
  using fs_path_neq_index[OF assms] by (simp add: fs_abs_def fs_map_def update_conv')

lemma fs_abs_removed:
  assumes "fs_keys_ok B K" and "k \<in> K" and "key \<in> K"
  shows "fs_abs B (Some (filter (\<lambda>p. fst p \<noteq> fs_getFilePath B key) files)) k =
           ((fs_abs B (Some files))(key := None)) k"
  using fs_path_inj[OF assms(1,2,3)]
  by (auto simp: fs_abs_def fs_map_def delete_filter[symmetric] delete_conv')

lemma fs_abs_written:
  assumes "fs_keys_ok B K" and "k \<in> K" and "key \<in> K"
  shows "fs_abs B (Some (AList.update (fs_getFilePath B key) (EntryDoc e) files)) k =
           ((fs_abs B (Some files))(key \<mapsto> e)) k"
  using fs_path_inj[OF assms(1,2,3)]
  by (auto simp: fs_abs_def fs_map_def update_conv')

lemma fs_abs_survivors:
  assumes "fs_keys_ok B K" and "k \<in> K"
  shows "fs_abs B (Some (fs_survivors now files)) k = live_at now (fs_abs B (Some files) k)"
proof -
  let ?n = "fs_getFilePath B k"
  have "map_of (fs_survivors now files) ?n =
          (if ?n = accessOrderFile \<or> fs_alive now files ?n then map_of files ?n else None)"
    using map_of_filter_key[of "\<lambda>n. n = accessOrderFile \<or> fs_alive now files n" files ?n]
    by (simp add: fs_survivors_def)
  then have m: "map_of (fs_survivors now files) ?n =
          (if fs_alive now files ?n then map_of files ?n else None)"
    using fs_path_neq_index[OF assms] by simp
  show ?thesis
  proof (cases "map_of files ?n")
    case None
    then show ?thesis by (simp add: fs_abs_def fs_map_def m live_at_def)
  next
    case (Some d)
    then show ?thesis
      by (cases d) (simp_all add: fs_abs_def fs_map_def m live_at_def fs_alive_def parse_entry_def)
  qed
qed

lemma fs_set_unbounded:
  fixes dir :: "'v directory"
  assumes "fs_unb B dir" and "fs_keys_ok B K" and "key \<in> K"
  shows "\<exists>files'. fs_set B key v options now dir = (Inr (), Some files') \<and> fs_unb B (Some files') \<and>
           (\<forall>k \<in> K. fs_abs B (Some files') k =
              ((\<lambda>k. live_at now (fs_abs B dir k))(key \<mapsto> new_entry now v options)) k)"
proof -
  from assms(1) have inv: "fs_inv dir" and inf: "fs_maxSize B = \<infinity>" by (simp_all add: fs_unb_def)
  let ?files = "fs_files dir"
  let ?o1 = "fs_reconciled now ?files (fs_order dir)"
  let ?f1 = "AList.update accessOrderFile (OrderDoc ?o1) (fs_survivors now ?files)"
  have d0: "distinct (map fst ?files)"
    using inv by (cases dir) (simp_all add: fs_inv_def fs_files_def)
  have d1: "distinct (map fst ?f1)"
    using d0 by (simp add: distinct_update fs_survivors_def distinct_map_filter)
  from fs_cleanup_result[OF inv, of B now]
  have c: "fs_cleanup B now dir = (Inr (), Some ?f1)"
    by (simp add: fs_evict_excess_unbounded[OF inf])
  have e: "fs_evict_for B key (Some ?f1) = (Inr (), Some ?f1)"
    using fs_evict_for_result[OF fs_getAccessOrder_update, of B key ?o1 "fs_survivors now ?files"] inf
    by simp
  let ?fp = "fs_getFilePath B key"
  let ?f3 = "AList.update ?fp (EntryDoc (new_entry now v options)) ?f1"
  note ne = fs_path_neq_index[OF assms(2,3)]
  have w: "fs_writeFile ?fp (EntryDoc (new_entry now v options)) (Some ?f1) = (Inr (), Some ?f3)"
    by (simp add: fs_writeFile_def)
  have o3: "fs_getAccessOrder (Some ?f3) = Some ?o1"
    using ne by (simp add: fs_getAccessOrder_update_other fs_getAccessOrder_update)
  let ?f4 = "AList.update accessOrderFile (OrderDoc (filter (\<lambda>k. k \<noteq> key) ?o1 @ [key])) ?f3"
  have u: "fs_updateAccessOrder key (Some ?f3) = (Inr (), Some ?f4)"
    by (rule fs_updateAccessOrder_result[OF o3])
  have s: "fs_set B key v options now dir = (Inr (), Some ?f4)"
    by (simp add: fs_set_def io_bind_apply c e w u)
  have i: "fs_inv (Some ?f4)"
    using d1 by (intro fs_inv_update_order) (simp add: distinct_update)
  have a: "fs_abs B (Some ?f4) k =
             ((\<lambda>k. live_at now (fs_abs B dir k))(key \<mapsto> new_entry now v options)) k"
    if k: "k \<in> K" for k
  proof -
    have "fs_abs B (Some ?f4) k = fs_abs B (Some ?f3) k"
      by (rule fs_abs_upd_order[OF assms(2) k])
    also have "\<dots> = ((fs_abs B (Some ?f1))(key \<mapsto> new_entry now v options)) k"
      by (rule fs_abs_written[OF assms(2) k assms(3)])
    also have "\<dots> = ((\<lambda>k. live_at now (fs_abs B dir k))(key \<mapsto> new_entry now v options)) k"
      using fs_abs_upd_order[OF assms(2) k, of "OrderDoc ?o1" "fs_survivors now ?files"]
        fs_abs_survivors[OF assms(2) k, of now ?files]
      by (simp add: fs_abs_files)
    finally show ?thesis .
  qed
  show ?thesis using s i inf a by (auto simp: fs_unb_def)
qed

section \<open>The file adapter without a bound: reads, delete, clear, runs\<close>

lemma fs_get_ideal:
  fixes dir :: "'v directory"
  assumes "fs_unb B dir" and "fs_keys_ok B K" and "key \<in> K"
  shows "\<exists>dir'. fs_get B key now dir = (Inr (ideal_lookup now (fs_abs B dir) key), dir') \<and>
           fs_unb B dir' \<and> agree_on K now (fs_abs B dir') (fs_abs B dir)"
proof -
  from assms(1) have inv: "fs_inv dir" and inf: "fs_maxSize B = \<infinity>" by (simp_all add: fs_unb_def)
  let ?fp = "fs_getFilePath B key"
  note ne = fs_path_neq_index[OF assms(2,3)]
  have same: "fs_unb B (Some (fs_files dir)) \<and> agree_on K now (fs_abs B (Some (fs_files dir))) (fs_abs B dir)"
    using fs_inv_files[OF inv] inf by (simp add: fs_unb_def fs_abs_files agree_on_refl)
  have fm: "fs_map dir ?fp = map_of (fs_files dir) ?fp"
    by (cases dir) (simp_all add: fs_map_def fs_files_def)
  show ?thesis
  proof (cases "map_of (fs_files dir) ?fp")
    case None
    then have "ideal_lookup now (fs_abs B dir) key = Undefined"
      by (simp add: ideal_lookup_def live_at_def fs_abs_def fm)
    with fs_get_absent[OF None, of now] same show ?thesis by auto
  next
    case (Some raw)
    then obtain files where dir: "dir = Some files" and raw: "map_of files ?fp = Some raw"
      by (cases dir) (auto simp: fs_files_def)
    show ?thesis
    proof (cases "parse_entry raw")
      case None
      then have "ideal_lookup now (fs_abs B dir) key = Undefined"
        using raw dir
        by (cases raw) (simp_all add: ideal_lookup_def live_at_def fs_abs_def fs_map_def parse_entry_def)
      with fs_get_malformed[OF Some None, of now] same show ?thesis by auto
    next
      case (Some e)
      have d: "distinct (map fst files)" using inv dir by (simp add: fs_inv_def)
      show ?thesis
      proof (cases "isExpired now e")
        case True
        have o: "fs_getAccessOrder (Some (filter (\<lambda>p. fst p \<noteq> ?fp) files)) = Some (fs_order dir)"
          using fs_inv_order[OF inv] ne dir by (simp add: fs_getAccessOrder_filter_other)
        let ?d' = "AList.update accessOrderFile (OrderDoc (filter (\<lambda>k. k \<noteq> key) (fs_order dir)))
                    (filter (\<lambda>p. fst p \<noteq> ?fp) files)"
        have g: "fs_get B key now dir = (Inr Undefined, Some ?d')"
          using fs_get_expired[OF raw Some True o] dir by simp
        have l: "live_at now (fs_abs B dir key) = None"
          using raw dir Some True
          by (cases raw) (auto simp: live_at_def fs_abs_def fs_map_def parse_entry_def)
        have "agree_on K now (fs_abs B (Some ?d')) ((fs_abs B dir)(key := None))"
        proof (rule agree_on_eqI)
          fix k assume k: "k \<in> K"
          show "fs_abs B (Some ?d') k = ((fs_abs B dir)(key := None)) k"
            using fs_abs_upd_order[OF assms(2) k, of _ "filter (\<lambda>p. fst p \<noteq> ?fp) files"]
              fs_abs_removed[OF assms(2) k assms(3), of files]
            by (simp add: dir)
        qed
        then have "agree_on K now (fs_abs B (Some ?d')) (fs_abs B dir)"
          by (rule agree_on_trans)
             (rule agree_on_expired_removed[where a = "fs_abs B dir" and key = key, OF l])
        moreover have "fs_unb B (Some ?d')"
          using d inf by (simp add: fs_unb_def fs_inv_update_order distinct_map_filter)
        ultimately show ?thesis using g l by (auto simp: ideal_lookup_def)
      next
        case False
        let ?d' = "AList.update accessOrderFile
                     (OrderDoc (filter (\<lambda>k. k \<noteq> key) (fs_order dir) @ [key])) files"
        have g: "fs_get B key now dir = (Inr (entry_value e), Some ?d')"
          using fs_get_hit[OF raw Some False] fs_inv_order[OF inv] dir by simp
        have v: "ideal_lookup now (fs_abs B dir) key = entry_value e"
          using raw dir Some False
          by (cases raw) (auto simp: ideal_lookup_def live_at_def fs_abs_def fs_map_def parse_entry_def)
        have "agree_on K now (fs_abs B (Some ?d')) (fs_abs B dir)"
          by (rule agree_on_eqI) (simp add: dir fs_abs_upd_order[OF assms(2)])
        moreover have "fs_unb B (Some ?d')"
          using d inf by (simp add: fs_unb_def fs_inv_update_order)
        ultimately show ?thesis using g v by auto
      qed
    qed
  qed
qed

lemma fs_delete_ideal:
  fixes dir :: "'v directory"
  assumes "fs_unb B dir" and "fs_keys_ok B K" and "key \<in> K"
  shows "\<exists>dir'. fs_delete B key dir = (Inr (), dir') \<and> fs_unb B dir' \<and>
           agree_on K now (fs_abs B dir') ((fs_abs B dir)(key := None))"
proof -
  from assms(1) have inv: "fs_inv dir" and inf: "fs_maxSize B = \<infinity>" by (simp_all add: fs_unb_def)
  let ?fp = "fs_getFilePath B key"
  note ne = fs_path_neq_index[OF assms(2,3)]
  show ?thesis
  proof (cases "fs_map dir ?fp")
    case None
    then have "(fs_abs B dir)(key := None) = fs_abs B dir"
      by (auto simp: fs_abs_def)
    with fs_delete_absent[OF None] assms(1) show ?thesis by (simp add: agree_on_refl)
  next
    case (Some raw)
    then obtain files where dir: "dir = Some files" and raw: "map_of files ?fp = Some raw"
      by (cases dir) (auto simp: fs_map_def)
    have d: "distinct (map fst files)" using inv dir by (simp add: fs_inv_def)
    have o: "fs_getAccessOrder (Some (filter (\<lambda>p. fst p \<noteq> ?fp) files)) = Some (fs_order dir)"
      using fs_inv_order[OF inv] ne dir by (simp add: fs_getAccessOrder_filter_other)
    let ?d' = "AList.update accessOrderFile (OrderDoc (filter (\<lambda>k. k \<noteq> key) (fs_order dir)))
                (filter (\<lambda>p. fst p \<noteq> ?fp) files)"
    have g: "fs_delete B key dir = (Inr (), Some ?d')"
      by (simp add: fs_delete_def io_bind_apply io_catch_apply dir fs_unlink_present[OF raw] o
            as_array_def io_return_apply fs_setAccessOrder_Some)
    have "agree_on K now (fs_abs B (Some ?d')) ((fs_abs B dir)(key := None))"
    proof (rule agree_on_eqI)
      fix k assume k: "k \<in> K"
      show "fs_abs B (Some ?d') k = ((fs_abs B dir)(key := None)) k"
        using fs_abs_upd_order[OF assms(2) k, of _ "filter (\<lambda>p. fst p \<noteq> ?fp) files"]
          fs_abs_removed[OF assms(2) k assms(3), of files]
        by (simp add: dir)
    qed
    moreover have "fs_unb B (Some ?d')"
      using d inf by (simp add: fs_unb_def fs_inv_update_order distinct_map_filter)
    ultimately show ?thesis using g by auto
  qed
qed

lemma fs_unlink_all_distinct:
  "distinct names \<Longrightarrow> set names \<subseteq> fst ` set files \<Longrightarrow>
   fs_unlink_all names (Some files) = (Inr (), Some (filter (\<lambda>p. fst p \<notin> set names) files))"
proof (induction names arbitrary: files)
  case Nil
  then show ?case by (simp add: io_return_apply)
next
  case (Cons f names)
  from Cons.prems obtain content where c: "map_of files f = Some content"
    by (metis domD dom_map_of_conv_image_fst list.set_intros(1) subsetD)
  have sub: "set names \<subseteq> fst ` set (filter (\<lambda>p. fst p \<noteq> f) files)"
    using Cons.prems by force
  have "filter (\<lambda>p. fst p \<notin> set names) (filter (\<lambda>p. fst p \<noteq> f) files) =
        filter (\<lambda>p. fst p \<notin> set (f # names)) files"
    by (auto intro!: filter_cong)
  then show ?case
    using Cons.IH[OF _ sub] Cons.prems(1) by (simp add: fs_unlink_present[OF c])
qed

lemma fs_clear_ideal:
  fixes dir :: "'v directory"
  assumes "fs_unb B dir" and "fs_keys_ok B K"
  shows "\<exists>dir'. fs_clear dir = (Inr (), dir') \<and> fs_unb B dir' \<and>
           agree_on K now (fs_abs B dir') (\<lambda>k. None)"
proof (cases dir)
  case None
  have "agree_on K now (fs_abs B (None :: 'v directory)) (\<lambda>k. None)"
    by (rule agree_on_eqI) (simp add: fs_abs_def fs_map_def)
  then show ?thesis
    using assms(1) None by (simp add: fs_clear_def io_simps fs_readdir_def)
next
  case (Some files)
  from assms(1) Some have d: "distinct (map fst files)" and inf: "fs_maxSize B = \<infinity>"
    by (simp_all add: fs_unb_def fs_inv_def)
  have u: "fs_unlink_all (map fst files) (Some files) = (Inr (), Some [])"
    using fs_unlink_all_distinct[OF d, of files] by simp
  have c: "fs_clear dir = (Inr (), Some [(accessOrderFile, OrderDoc [])])"
    by (simp add: fs_clear_def io_bind_apply io_catch_apply fs_readdir_def Some u fs_setAccessOrder_Some)
  have "agree_on K now (fs_abs B (Some [(accessOrderFile, OrderDoc [])])) (\<lambda>k. None)"
    by (rule agree_on_eqI) (simp add: fs_abs_def fs_map_def)
  moreover have "fs_unb B (Some [(accessOrderFile, OrderDoc ([] :: string list)) :: string \<times> 'v doc])"
    using inf fs_inv_update_order[of "[] :: (string \<times> 'v doc) list" "[]"] by (simp add: fs_unb_def)
  ultimately show ?thesis using c by auto
qed

lemma fs_step_ideal:
  fixes dir :: "'v directory"
  assumes "fs_unb B dir" and "fs_keys_ok B K" and "op_keys c \<subseteq> K"
  shows "\<exists>r dir'. fs_step B c now dir = (r, dir') \<and> fs_unb B dir' \<and>
           r = fst (ideal_step c now (fs_abs B dir)) \<and>
           agree_on K now (fs_abs B dir') (snd (ideal_step c now (fs_abs B dir)))"
proof (cases c)
  case (Get key)
  with assms(3) have k: "key \<in> K" by simp
  from fs_get_ideal[OF assms(1,2) k, of now] Get show ?thesis
    by (auto simp: reply_of_def)
next
  case (Has key)
  with assms(3) have k: "key \<in> K" by simp
  from fs_get_ideal[OF assms(1,2) k, of now] Has show ?thesis
    by (auto simp: reply_of_def fs_has_eq)
next
  case (Set key v options)
  with assms(3) have k: "key \<in> K" by simp
  from fs_set_unbounded[OF assms(1,2) k, of v options now] obtain files' where
    s: "fs_set B key v options now dir = (Inr (), Some files')" "fs_unb B (Some files')"
       "\<forall>k \<in> K. fs_abs B (Some files') k =
              ((\<lambda>k. live_at now (fs_abs B dir k))(key \<mapsto> new_entry now v options)) k"
    by blast
  have "agree_on K now (fs_abs B (Some files'))
          ((\<lambda>k. live_at now (fs_abs B dir k))(key \<mapsto> new_entry now v options))"
    by (rule agree_on_eqI) (use s(3) in blast)
  then have "agree_on K now (fs_abs B (Some files')) ((fs_abs B dir)(key \<mapsto> new_entry now v options))"
    by (rule agree_on_trans) (rule agree_on_set_purged)
  then show ?thesis using s(1,2) Set by (auto simp: reply_of_def)
next
  case (Delete key)
  with assms(3) have k: "key \<in> K" by simp
  from fs_delete_ideal[OF assms(1,2) k, of now] Delete show ?thesis
    by (auto simp: reply_of_def)
next
  case Clear
  from fs_clear_ideal[OF assms(1,2), of now] Clear show ?thesis
    by (auto simp: reply_of_def)
qed

lemma fs_run_ideal:
  fixes dir :: "'v directory"
  assumes "fs_unb B dir" and "fs_keys_ok B K" and "agree_on K t (fs_abs B dir) m"
    and "\<forall>c \<in> set ops. op_keys (snd c) \<subseteq> K" and "nondecreasing t ops"
  shows "\<exists>dir'. fs_run B ops dir = (fst (ideal_run ops m), dir')"
  using assms(1,3,4,5)
proof (induction ops arbitrary: dir m t)
  case Nil
  then show ?case by simp
next
  case (Cons x ops)
  obtain now c where x: "x = (now, c)" by (cases x)
  from Cons.prems x have t: "t \<le> now" and nd: "nondecreasing now ops"
    and k: "op_keys c \<subseteq> K" and ks: "\<forall>c \<in> set ops. op_keys (snd c) \<subseteq> K"
    by simp_all
  from fs_step_ideal[OF Cons.prems(1) assms(2) k, of now] obtain r d1 where
    st: "fs_step B c now dir = (r, d1)" "fs_unb B d1"
        "r = fst (ideal_step c now (fs_abs B dir))"
        "agree_on K now (fs_abs B d1) (snd (ideal_step c now (fs_abs B dir)))"
    by blast
  note ag = ideal_step_agree[OF Cons.prems(2) t k]
  have r: "r = fst (ideal_step c now m)" using st(3) ag(1) by simp
  have a1: "agree_on K now (fs_abs B d1) (snd (ideal_step c now m))"
    using agree_on_trans[OF st(4) ag(2)] by simp
  from Cons.IH[OF st(2) a1 ks nd] obtain dir' where
    "fs_run B ops d1 = (fst (ideal_run ops (snd (ideal_step c now m))), dir')" by blast
  then show ?case
    using st(1) r x by (simp split: prod.splits)
qed

section \<open>C6: has and get\<close>

lemma parse_entry_valued:
  "parse_entry raw = Some e \<Longrightarrow> entry_value e \<noteq> Undefined \<Longrightarrow> raw = EntryDoc e"
  by (cases raw) (auto simp: parse_entry_def)

lemma valued_iff: "x \<noteq> Undefined \<longleftrightarrow> (\<exists>v. x = Val v)"
  by (cases x) auto

lemma fs_get_expired_miss:
  assumes "fs_map dir (fs_getFilePath B key) = Some raw" and "parse_entry raw = Some e"
    and "isExpired now e"
  shows "fst (fs_get B key now dir) = Inr Undefined"
  using assms
  by (cases dir)
     (auto simp: fs_get_def io_simps fs_ensureDirectory_def fs_readFile_def fs_map_def
        split: option.splits sum.splits prod.splits)

lemma fs_get_value:
  fixes dir :: "'v directory"
  assumes "fs_getAccessOrder dir \<noteq> None"
  shows "fst (fs_get B key now dir) = Inr (Val v) \<longleftrightarrow>
           (\<exists>e. fs_map dir (fs_getFilePath B key) = Some (EntryDoc e) \<and> \<not> isExpired now e \<and>
                entry_value e = Val v)"
proof (cases "fs_map dir (fs_getFilePath B key)")
  case None
  then have "map_of (fs_files dir) (fs_getFilePath B key) = None"
    by (cases dir) (simp_all add: fs_map_def fs_files_def)
  from fs_get_absent[OF this, of now] None show ?thesis by simp
next
  case (Some raw)
  then obtain files where d: "dir = Some files" and f: "map_of files (fs_getFilePath B key) = Some raw"
    by (cases dir) (auto simp: fs_map_def)
  show ?thesis
  proof (cases "parse_entry raw")
    case None
    from fs_get_malformed[of dir B key raw now] f d None Some show ?thesis
      by (auto simp: fs_files_def parse_entry_def)
  next
    case pe: (Some e)
    show ?thesis
    proof (cases "isExpired now e")
      case True
      from fs_get_expired_miss[OF Some pe True] Some pe True show ?thesis
        by (auto simp: parse_entry_def)
    next
      case False
      from assms d obtain order where o: "fs_getAccessOrder (Some files) = Some order" by auto
      from fs_get_hit[OF f pe False o] have g: "fst (fs_get B key now dir) = Inr (entry_value e)"
        by (simp add: d)
      show ?thesis
      proof
        assume "fst (fs_get B key now dir) = Inr (Val v)"
        with g have v: "entry_value e = Val v" by simp
        with pe have "raw = EntryDoc e" by (intro parse_entry_valued) simp_all
        with Some False v show "\<exists>e. fs_map dir (fs_getFilePath B key) = Some (EntryDoc e) \<and>
            \<not> isExpired now e \<and> entry_value e = Val v" by blast
      next
        assume "\<exists>e. fs_map dir (fs_getFilePath B key) = Some (EntryDoc e) \<and> \<not> isExpired now e \<and>
            entry_value e = Val v"
        with Some pe show "fst (fs_get B key now dir) = Inr (Val v)"
          using g by (auto simp: parse_entry_def)
      qed
    qed
  qed
qed

lemma ls_get_value:
  fixes st :: "'v localStorage"
  assumes "ls_ok A st"
  shows "fst (ls_get A key now (Some st)) = Inr (Val v) \<longleftrightarrow>
           (\<exists>e. ls_map st (ls_getFullKey A key) = Some (EntryDoc e) \<and> \<not> isExpired now e \<and>
                entry_value e = Val v)"
proof (cases "ls_map st (ls_getFullKey A key)")
  case None
  with ls_get_absent[of st A key now] show ?thesis by simp
next
  case (Some raw)
  show ?thesis
  proof (cases "raw = EmptyText")
    case True
    with Some ls_get_absent[of st A key now] show ?thesis by simp
  next
    case ne: False
    show ?thesis
    proof (cases "parse_entry raw")
      case None
      with ls_get_purges[OF assms Some ne, of now] Some show ?thesis
        by (auto simp: parse_entry_def)
    next
      case pe: (Some e)
      show ?thesis
      proof (cases "isExpired now e")
        case True
        with ls_get_purges[OF assms Some ne, of now] Some pe show ?thesis
          by (auto simp: parse_entry_def)
      next
        case False
        from ls_get_hit[OF assms Some ne pe False]
        have g: "fst (ls_get A key now (Some st)) = Inr (entry_value e)" by auto
        show ?thesis
        proof
          assume "fst (ls_get A key now (Some st)) = Inr (Val v)"
          with g have v: "entry_value e = Val v" by simp
          with pe have "raw = EntryDoc e" by (intro parse_entry_valued) simp_all
          with Some False v show "\<exists>e. ls_map st (ls_getFullKey A key) = Some (EntryDoc e) \<and>
              \<not> isExpired now e \<and> entry_value e = Val v" by blast
        next
          assume "\<exists>e. ls_map st (ls_getFullKey A key) = Some (EntryDoc e) \<and> \<not> isExpired now e \<and>
              entry_value e = Val v"
          with Some pe show "fst (ls_get A key now (Some st)) = Inr (Val v)"
            using g by (auto simp: parse_entry_def)
        qed
      qed
    qed
  qed
qed

lemma ls_get_expired_miss:
  fixes st :: "'v localStorage"
  assumes "ls_ok A st" and "ls_map st (ls_getFullKey A key) = Some (EntryDoc e)" and "isExpired now e"
  shows "fst (ls_get A key now (Some st)) = Inr Undefined"
proof -
  have "parse_entry (EntryDoc e) = None \<or> (\<exists>e'. parse_entry (EntryDoc e) = Some e' \<and> isExpired now e')"
    using assms(3) by (simp add: parse_entry_def)
  from ls_get_purges[OF assms(1,2) _ this] show ?thesis by auto
qed

text \<open>
  C6, as amended. On the volatile adapter \<open>has(key)\<close> is true exactly when the key
  holds an entry that has not expired, whatever its value; there \<open>has(key)\<close> is true
  if and only if \<open>get(key)\<close> on the same state returns a value whenever the value
  stored under the key is not \<open>undefined\<close>. On the two persistent adapters, in every
  state, \<open>has(key)\<close> is true if and only if \<open>get(key)\<close> on the same state returns a
  value, false if and only if it returns \<open>undefined\<close>, and both leave the same state;
  when the access-order document is absent, unreadable or an array (and, for the
  key/value adapter, the store accepts writes), \<open>has(key)\<close> is true exactly when the
  key holds an unexpired entry with a value. \<open>has\<close> on an expired key is false: on
  the volatile and the file adapter in every state, on the key/value adapter when the
  store accepts writes and its access-order document is absent, unreadable or an
  array.
\<close>

theorem C6_has_agrees_with_get:
  fixes s :: "'v MemoryAdapter" and st :: "'v localStorage" and env :: "'v localStorage option"
    and dir :: "'v directory"
  shows
    "(fst (mem_has key now s) \<longleftrightarrow>
        (\<exists>e. map_of (mem_store s) key = Some e \<and> \<not> isExpired now e)) \<and>
     ((\<forall>e. map_of (mem_store s) key = Some e \<longrightarrow> entry_value e \<noteq> Undefined) \<longrightarrow>
        (fst (mem_has key now s) \<longleftrightarrow> (\<exists>v. fst (mem_get key now s) = Val v))) \<and>
     (map_of (mem_store s) key = Some e \<and> isExpired now e \<longrightarrow> \<not> fst (mem_has key now s)) \<and>
     (fst (ls_has A key now env) = Inr True \<longleftrightarrow> (\<exists>v. fst (ls_get A key now env) = Inr (Val v))) \<and>
     (fst (ls_has A key now env) = Inr False \<longleftrightarrow> fst (ls_get A key now env) = Inr Undefined) \<and>
     snd (ls_has A key now env) = snd (ls_get A key now env) \<and>
     (ls_ok A st \<longrightarrow>
        (fst (ls_has A key now (Some st)) = Inr True \<longleftrightarrow>
           (\<exists>e. ls_map st (ls_getFullKey A key) = Some (EntryDoc e) \<and> \<not> isExpired now e \<and>
                entry_value e \<noteq> Undefined)) \<and>
        (fst (ls_has A key now (Some st)) = Inr True \<or>
         fst (ls_has A key now (Some st)) = Inr False)) \<and>
     (ls_ok A st \<and> ls_map st (ls_getFullKey A key) = Some (EntryDoc e) \<and> isExpired now e \<longrightarrow>
        fst (ls_has A key now (Some st)) = Inr False) \<and>
     (fst (fs_has B key now dir) = Inr True \<longleftrightarrow> (\<exists>v. fst (fs_get B key now dir) = Inr (Val v))) \<and>
     (fst (fs_has B key now dir) = Inr False \<longleftrightarrow> fst (fs_get B key now dir) = Inr Undefined) \<and>
     snd (fs_has B key now dir) = snd (fs_get B key now dir) \<and>
     (fst (fs_has B key now dir) = Inr True \<or> fst (fs_has B key now dir) = Inr False) \<and>
     (fs_getAccessOrder dir \<noteq> None \<longrightarrow>
        (fst (fs_has B key now dir) = Inr True \<longleftrightarrow>
           (\<exists>e. fs_map dir (fs_getFilePath B key) = Some (EntryDoc e) \<and> \<not> isExpired now e \<and>
                entry_value e \<noteq> Undefined))) \<and>
     (fs_map dir (fs_getFilePath B key) = Some (EntryDoc e) \<and> isExpired now e \<longrightarrow>
        fst (fs_has B key now dir) = Inr False)"
proof -
  have m1: "fst (mem_has key now s) \<longleftrightarrow>
        (\<exists>e. map_of (mem_store s) key = Some e \<and> \<not> isExpired now e)"
    by (simp add: mem_has_def split: option.splits)
  have m2: "fst (mem_has key now s) \<longleftrightarrow> (\<exists>v. fst (mem_get key now s) = Val v)"
    if "\<forall>e. map_of (mem_store s) key = Some e \<longrightarrow> entry_value e \<noteq> Undefined"
    using that by (cases "map_of (mem_store s) key")
      (auto simp: mem_has_def mem_get_def intro: js.exhaust)
  have m3: "\<not> fst (mem_has key now s)" if "map_of (mem_store s) key = Some e \<and> isExpired now e"
    using that by (simp add: mem_has_def)
  have l: "(fst (ls_has A key now env) = Inr True \<longleftrightarrow> (\<exists>v. fst (ls_get A key now env) = Inr (Val v))) \<and>
     (fst (ls_has A key now env) = Inr False \<longleftrightarrow> fst (ls_get A key now env) = Inr Undefined) \<and>
     snd (ls_has A key now env) = snd (ls_get A key now env)"
    by (cases "ls_get A key now env"; cases "fst (ls_get A key now env)")
       (auto simp: ls_has_eq intro: js.exhaust)
  have f: "(fst (fs_has B key now dir) = Inr True \<longleftrightarrow> (\<exists>v. fst (fs_get B key now dir) = Inr (Val v))) \<and>
     (fst (fs_has B key now dir) = Inr False \<longleftrightarrow> fst (fs_get B key now dir) = Inr Undefined) \<and>
     snd (fs_has B key now dir) = snd (fs_get B key now dir)"
    by (cases "fs_get B key now dir"; cases "fst (fs_get B key now dir)")
       (auto simp: fs_has_eq intro: js.exhaust)
  have lt: "fst (ls_has A key now (Some st)) = Inr True \<longleftrightarrow>
           (\<exists>e. ls_map st (ls_getFullKey A key) = Some (EntryDoc e) \<and> \<not> isExpired now e \<and>
                entry_value e \<noteq> Undefined)" if "ls_ok A st"
  proof -
    have "fst (ls_has A key now (Some st)) = Inr True \<longleftrightarrow>
            (\<exists>v. fst (ls_get A key now (Some st)) = Inr (Val v))"
      by (cases "ls_get A key now (Some st)"; cases "fst (ls_get A key now (Some st))")
         (auto simp: ls_has_eq intro: js.exhaust)
    also have "\<dots> \<longleftrightarrow> (\<exists>v e. ls_map st (ls_getFullKey A key) = Some (EntryDoc e) \<and>
        \<not> isExpired now e \<and> entry_value e = Val v)"
      by (simp add: ls_get_value[OF that])
    also have "\<dots> \<longleftrightarrow> (\<exists>e. ls_map st (ls_getFullKey A key) = Some (EntryDoc e) \<and>
        \<not> isExpired now e \<and> entry_value e \<noteq> Undefined)"
      by (auto simp: valued_iff)
    finally show ?thesis .
  qed
  have lb: "fst (ls_has A key now (Some st)) = Inr True \<or>
         fst (ls_has A key now (Some st)) = Inr False" if "ls_ok A st"
    using ls_has_returns[OF that, of key now] by auto
  have lx: "fst (ls_has A key now (Some st)) = Inr False"
    if "ls_ok A st \<and> ls_map st (ls_getFullKey A key) = Some (EntryDoc e) \<and> isExpired now e"
    using that ls_get_expired_miss[of A st key e now]
    by (cases "ls_get A key now (Some st)") (simp add: ls_has_eq)
  have fb: "fst (fs_has B key now dir) = Inr True \<or> fst (fs_has B key now dir) = Inr False"
    using fs_has_returns[of B key now dir] by auto
  have ft: "fst (fs_has B key now dir) = Inr True \<longleftrightarrow>
           (\<exists>e. fs_map dir (fs_getFilePath B key) = Some (EntryDoc e) \<and> \<not> isExpired now e \<and>
                entry_value e \<noteq> Undefined)" if "fs_getAccessOrder dir \<noteq> None"
  proof -
    have "fst (fs_has B key now dir) = Inr True \<longleftrightarrow>
            (\<exists>v. fst (fs_get B key now dir) = Inr (Val v))"
      using f by simp
    also have "\<dots> \<longleftrightarrow> (\<exists>v e. fs_map dir (fs_getFilePath B key) = Some (EntryDoc e) \<and>
        \<not> isExpired now e \<and> entry_value e = Val v)"
      by (simp add: fs_get_value[OF that])
    also have "\<dots> \<longleftrightarrow> (\<exists>e. fs_map dir (fs_getFilePath B key) = Some (EntryDoc e) \<and>
        \<not> isExpired now e \<and> entry_value e \<noteq> Undefined)"
      by (auto simp: valued_iff)
    finally show ?thesis .
  qed
  have fx: "fst (fs_has B key now dir) = Inr False"
    if "fs_map dir (fs_getFilePath B key) = Some (EntryDoc e) \<and> isExpired now e"
    using that fs_get_expired_miss[of dir B key "EntryDoc e" e now]
    by (cases "fs_get B key now dir") (simp add: parse_entry_def fs_has_eq)
  note l1 = l[THEN conjunct1] and l2 = l[THEN conjunct2, THEN conjunct1]
    and l3 = l[THEN conjunct2, THEN conjunct2]
  note f1 = f[THEN conjunct1] and f2 = f[THEN conjunct2, THEN conjunct1]
    and f3 = f[THEN conjunct2, THEN conjunct2]
  show ?thesis
    apply (intro conjI impI)
    subgoal by (rule m1)
    subgoal by (rule m2)
    subgoal by (rule m3)
    subgoal by (rule l1)
    subgoal by (rule l2)
    subgoal by (rule l3)
    subgoal by (rule lt)
    subgoal by (rule lb)
    subgoal by (rule lx)
    subgoal by (rule f1)
    subgoal by (rule f2)
    subgoal by (rule f3)
    subgoal by (rule fb)
    subgoal by (rule ft)
    subgoal by (rule fx)
    done
qed

theorem C6_has_agrees_with_get_witness:
  "(fst (mem_has ''k'' 1
      \<lparr>mem_store = [(''k'', \<lparr>entry_value = Val (7::nat), timestamp = 0, expiry = Some 10\<rparr>)],
       mem_maxSize = \<infinity>, mem_accessOrder = [''k'']\<rparr>) =
    (\<exists>v. fst (mem_get ''k'' 1
      \<lparr>mem_store = [(''k'', \<lparr>entry_value = Val (7::nat), timestamp = 0, expiry = Some 10\<rparr>)],
       mem_maxSize = \<infinity>, mem_accessOrder = [''k'']\<rparr>) = Val v)) \<and>
   \<not> fst (mem_has ''k'' 10
      \<lparr>mem_store = [(''k'', \<lparr>entry_value = Val (7::nat), timestamp = 0, expiry = Some 10\<rparr>)],
       mem_maxSize = \<infinity>, mem_accessOrder = [''k'']\<rparr>) \<and>
   fst (ls_has (LocalStorageAdapter_new no_options None) ''k'' 1
      (Some \<lparr>items = [(''cache:k'', EntryDoc \<lparr>entry_value = Val (7::nat), timestamp = 0, expiry = Some 10\<rparr>)],
             quota_ok = (\<lambda>xs. True)\<rparr>)) = Inr True \<and>
   fst (ls_has (LocalStorageAdapter_new no_options None) ''k'' 10
      (Some \<lparr>items = [(''cache:k'', EntryDoc \<lparr>entry_value = Val (7::nat), timestamp = 0, expiry = Some 10\<rparr>)],
             quota_ok = (\<lambda>xs. True)\<rparr>)) = Inr False \<and>
   fst (fs_has (FileSystemAdapter_new no_options (\<lambda>k. ''0'' @ k)) ''k'' 1
      (Some [(''0k.json'', EntryDoc \<lparr>entry_value = Val (7::nat), timestamp = 0, expiry = Some 10\<rparr>)]))
     = Inr True \<and>
   fst (fs_has (FileSystemAdapter_new no_options (\<lambda>k. ''0'' @ k)) ''k'' 10
      (Some [(''0k.json'', EntryDoc \<lparr>entry_value = Val (7::nat), timestamp = 0, expiry = Some 10\<rparr>)]))
     = Inr False"
proof -
  let ?e = "\<lparr>entry_value = Val (7::nat), timestamp = 0, expiry = Some 10\<rparr>"
  let ?s = "\<lparr>mem_store = [(''k'', ?e)], mem_maxSize = \<infinity>, mem_accessOrder = [''k'']\<rparr>"
  let ?A = "LocalStorageAdapter_new no_options None"
  let ?st = "\<lparr>items = [(''cache:k'', EntryDoc ?e)], quota_ok = (\<lambda>xs. True)\<rparr>"
  let ?B = "FileSystemAdapter_new no_options (\<lambda>k. ''0'' @ k)"
  let ?dir = "Some [(''0k.json'', EntryDoc ?e)]"
  note T = C6_has_agrees_with_get[where key = "''k''" and s = ?s and A = ?A and st = ?st
      and env = "Some ?st" and B = ?B and dir = ?dir and e = ?e]
  have h: "\<forall>e. map_of (mem_store ?s) ''k'' = Some e \<longrightarrow> entry_value e \<noteq> Undefined"
    by simp
  have ms: "map_of (mem_store ?s) ''k'' = Some ?e" by simp
  have ok: "ls_ok ?A ?st"
    by (simp add: ls_ok_def ls_getAccessOrder_def getItem_def LocalStorageAdapter_new_def)
  have lm: "ls_map ?st (ls_getFullKey ?A ''k'') = Some (EntryDoc ?e)"
    by (simp add: ls_map_def ls_getFullKey_def LocalStorageAdapter_new_def)
  have fo: "fs_getAccessOrder ?dir \<noteq> None"
    by (simp add: fs_getAccessOrder_def fs_readFile_def accessOrderFile_def)
  have fm: "fs_map ?dir (fs_getFilePath ?B ''k'') = Some (EntryDoc ?e)"
    by (simp add: fs_map_def fs_getFilePath_def FileSystemAdapter_new_def)
  have x1: "\<not> isExpired 1 ?e" and x10: "isExpired 10 ?e" by (simp_all add: isExpired_def)
  have v: "entry_value ?e \<noteq> Undefined" by simp
  have 1: "fst (mem_has ''k'' 1 ?s) = (\<exists>v. fst (mem_get ''k'' 1 ?s) = Val v)"
    using T[of 1] h by blast
  have 2: "\<not> fst (mem_has ''k'' 10 ?s)" using T[of 10] ms x10 by blast
  have 3: "fst (ls_has ?A ''k'' 1 (Some ?st)) = Inr True" using T[of 1] ok lm x1 v by blast
  have 4: "fst (ls_has ?A ''k'' 10 (Some ?st)) = Inr False" using T[of 10] ok lm x10 by blast
  have 5: "fst (fs_has ?B ''k'' 1 ?dir) = Inr True" using T[of 1] fo fm x1 v by blast
  have 6: "fst (fs_has ?B ''k'' 10 ?dir) = Inr False" using T[of 10] fm x10 by blast
  show ?thesis using 1 2 3 4 5 6 by blast
qed

text \<open>
  The claim as stated fails on the volatile adapter: in the state that
  \<open>set(''k'', undefined)\<close> leaves, \<open>has\<close> is true and \<open>get\<close> reports a miss.
\<close>

theorem C6_has_true_on_undefined_counterexample:
  "fst (mem_has ''k'' 1
      \<lparr>mem_store = [(''k'', \<lparr>entry_value = (Undefined :: nat js), timestamp = 0, expiry = None\<rparr>)],
       mem_maxSize = \<infinity>, mem_accessOrder = [''k'']\<rparr>) \<and>
   fst (mem_get ''k'' 1
      \<lparr>mem_store = [(''k'', \<lparr>entry_value = (Undefined :: nat js), timestamp = 0, expiry = None\<rparr>)],
       mem_maxSize = \<infinity>, mem_accessOrder = [''k'']\<rparr>) = Undefined \<and>
   mem_set ''k'' Undefined no_options 0 (MemoryAdapter_new no_options) =
     Some \<lparr>mem_store = [(''k'', \<lparr>entry_value = (Undefined :: nat js), timestamp = 0, expiry = None\<rparr>)],
       mem_maxSize = \<infinity>, mem_accessOrder = [''k'']\<rparr>"
  by (simp add: mem_has_def mem_get_def isExpired_def mem_set_def mem_cleanup_def
      mem_purge_def MemoryAdapter_new_def no_options_def resolve_maxSize_def
      mem_evict_loop.simps mem_evict_for_def new_entry_def mem_updateAccessOrder_def)

section \<open>C3: eviction at set\<close>





lemma file_adapter_evicts_on_rewrite:
  "fst (fs_run (FileSystemAdapter_new \<lparr>ttl = None, maxSize = Some 2\<rparr> (\<lambda>k. ''0'' @ k))
     [(0, Set ''A'' (Val (1::nat)) no_options), (1, Set ''B'' (Val 2) no_options),
      (2, Set ''B'' (Val 3) no_options), (3, Get ''A''), (4, Get ''B'')] None)
   = [Done, Done, Done, Got Undefined, Got (Val 3)]"
  by code_simp

lemma empty_key_is_not_evicted:
  "map_option fst (mem_run
     [(0, Set '''' (Val (1::nat)) no_options), (1, Set ''a'' (Val 2) no_options),
      (2, Get ''''), (3, Get ''a'')]
     (MemoryAdapter_new \<lparr>ttl = None, maxSize = Some 1\<rparr>))
   = Some [Done, Done, Got (Val 1), Got (Val 2)]"
  by code_simp

section \<open>C9: a bound of 0 is no bound\<close>

lemma resolve_maxSize_zero: "maxSize options = Some 0 \<Longrightarrow> resolve_maxSize options = \<infinity>"
  by (simp add: resolve_maxSize_def)

lemma ls_unb_fresh:
  assumes "resolve_maxSize options = \<infinity>" and "items st = []" and "\<forall>xs. quota_ok st xs"
  shows "ls_unb (LocalStorageAdapter_new options pfx) st"
    and "agree_on K t (ls_abs (LocalStorageAdapter_new options pfx) st) (\<lambda>k. None)"
proof -
  show "ls_unb (LocalStorageAdapter_new options pfx) st"
    using assms
    by (simp add: ls_unb_def ls_wf_new ls_ok_def ls_getAccessOrder_def getItem_def)
       (simp add: LocalStorageAdapter_new_def Let_def)
  show "agree_on K t (ls_abs (LocalStorageAdapter_new options pfx) st) (\<lambda>k. None)"
    by (rule agree_on_eqI) (simp add: ls_abs_def ls_map_def assms(2))
qed

lemma fs_unb_fresh:
  assumes "resolve_maxSize options = \<infinity>" and "fs_files dir = []"
  shows "fs_unb (FileSystemAdapter_new options h) dir"
    and "agree_on K t (fs_abs (FileSystemAdapter_new options h) dir) (\<lambda>k. None)"
proof -
  have m: "fs_map dir = (\<lambda>k. None)"
    using assms(2) by (cases dir) (simp_all add: fs_map_def fs_files_def)
  have o: "fs_getAccessOrder dir = Some []"
    by (simp add: fs_getAccessOrder_map m)
  show "fs_unb (FileSystemAdapter_new options h) dir"
    using assms o
    by (cases dir) (simp_all add: fs_unb_def fs_inv_def FileSystemAdapter_new_def fs_files_def)
  show "agree_on K t (fs_abs (FileSystemAdapter_new options h) dir) (\<lambda>k. None)"
    by (rule agree_on_eqI) (simp add: fs_abs_def m)
qed

text \<open>
  C9. With the capacity bound configured as 0 (\<open>maxSize = 0\<close>) each adapter is
  unbounded: the falsy bound becomes \<open>Infinity\<close>, and on every sequence of
  operations at non-decreasing times, started on an empty cache, each adapter
  answers as the unbounded cache of the specification does, where every key that was
  set is retrievable until it expires, is deleted or is cleared. (Every \<open>set\<close>
  stores a value; for the key/value adapter, \<open>localStorage\<close> exists, is empty and
  accepts writes, and no key is the reserved \<open>__access_order\<close>; for the file adapter
  the keys have distinct hashes, none of them \<open>__access_order\<close>.)
\<close>

theorem C9_zero_bound_is_unbounded:
  fixes ops :: "(int \<times> 'v op) list" and st :: "'v localStorage" and dir :: "'v directory"
  assumes "maxSize options = Some 0"
    and "\<forall>c \<in> set ops. stores_value (snd c)" and "nondecreasing t ops"
    and "\<forall>c \<in> set ops. op_keys (snd c) \<subseteq> plain_keys"
    and "items st = []" and "\<forall>xs. quota_ok st xs"
    and "fs_keys_ok (FileSystemAdapter_new options h) K"
    and "\<forall>c \<in> set ops. op_keys (snd c) \<subseteq> K" and "fs_files dir = []"
  shows
    "mem_maxSize (MemoryAdapter_new options :: 'v MemoryAdapter) = \<infinity> \<and>
     ls_maxSize (LocalStorageAdapter_new options pfx) = \<infinity> \<and>
     fs_maxSize (FileSystemAdapter_new options h) = \<infinity> \<and>
     (\<exists>s'. mem_run ops (MemoryAdapter_new options) = Some (fst (ideal_run ops (\<lambda>k. None)), s')) \<and>
     (\<exists>st'. ls_run (LocalStorageAdapter_new options pfx) ops (Some st) =
               (fst (ideal_run ops (\<lambda>k. None)), Some st')) \<and>
     (\<exists>dir'. fs_run (FileSystemAdapter_new options h) ops dir =
               (fst (ideal_run ops (\<lambda>k. None)), dir'))"
proof -
  note inf = resolve_maxSize_zero[OF assms(1)]
  have m0: "agree_on UNIV t (mem_abs (MemoryAdapter_new options :: 'v MemoryAdapter)) (\<lambda>k. None)"
    by (rule agree_on_eqI) (simp add: mem_abs_def MemoryAdapter_new_def)
  have 1: "\<exists>s'. mem_run ops (MemoryAdapter_new options) = Some (fst (ideal_run ops (\<lambda>k. None)), s')"
    by (rule mem_run_ideal[OF mem_unb_new[OF inf] m0 assms(2,3)])
  have 2: "\<exists>st'. ls_run (LocalStorageAdapter_new options pfx) ops (Some st) =
               (fst (ideal_run ops (\<lambda>k. None)), Some st')"
    by (rule ls_run_ideal[OF ls_unb_fresh[OF inf assms(5,6)] assms(4,3)])
  have 3: "\<exists>dir'. fs_run (FileSystemAdapter_new options h) ops dir =
               (fst (ideal_run ops (\<lambda>k. None)), dir')"
    by (rule fs_run_ideal[OF fs_unb_fresh(1)[OF inf assms(9)] assms(7)
          fs_unb_fresh(2)[OF inf assms(9)] assms(8,3)])
  show ?thesis
    using 1 2 3 inf
    by (simp add: MemoryAdapter_new_def LocalStorageAdapter_new_def FileSystemAdapter_new_def Let_def)
qed

theorem C9_zero_bound_is_unbounded_witness:
  "map_option fst (mem_run
      [(0, Set ''a'' (Val ''x'') no_options), (1, Set ''b'' (Val ''y'') \<lparr>ttl = Some 10, maxSize = None\<rparr>),
       (2, Set ''c'' (Val ''z'') no_options), (3, Get ''a''), (4, Get ''b''), (5, Has ''c''),
       (11, Get ''b''), (12, Delete ''a''), (13, Has ''a'')]
      (MemoryAdapter_new \<lparr>ttl = None, maxSize = Some 0\<rparr>)) =
     Some [Done, Done, Done, Got (Val ''x''), Got (Val ''y''), Answer True, Got Undefined, Done,
           Answer False] \<and>
   fst (ls_run (LocalStorageAdapter_new \<lparr>ttl = None, maxSize = Some 0\<rparr> None)
      [(0, Set ''a'' (Val ''x'') no_options), (1, Set ''b'' (Val ''y'') \<lparr>ttl = Some 10, maxSize = None\<rparr>),
       (2, Set ''c'' (Val ''z'') no_options), (3, Get ''a''), (4, Get ''b''), (5, Has ''c''),
       (11, Get ''b''), (12, Delete ''a''), (13, Has ''a'')]
      (Some \<lparr>items = [], quota_ok = (\<lambda>xs. True)\<rparr>)) =
     [Done, Done, Done, Got (Val ''x''), Got (Val ''y''), Answer True, Got Undefined, Done,
      Answer False] \<and>
   fst (fs_run (FileSystemAdapter_new \<lparr>ttl = None, maxSize = Some 0\<rparr> (\<lambda>k. ''0'' @ k))
      [(0, Set ''a'' (Val ''x'') no_options), (1, Set ''b'' (Val ''y'') \<lparr>ttl = Some 10, maxSize = None\<rparr>),
       (2, Set ''c'' (Val ''z'') no_options), (3, Get ''a''), (4, Get ''b''), (5, Has ''c''),
       (11, Get ''b''), (12, Delete ''a''), (13, Has ''a'')]
      None) =
     [Done, Done, Done, Got (Val ''x''), Got (Val ''y''), Answer True, Got Undefined, Done,
      Answer False]"
proof -
  let ?o = "\<lparr>ttl = None, maxSize = Some 0\<rparr>"
  let ?ops = "[(0, Set ''a'' (Val ''x'') no_options), (1, Set ''b'' (Val ''y'') \<lparr>ttl = Some 10, maxSize = None\<rparr>),
       (2, Set ''c'' (Val ''z'') no_options), (3, Get ''a''), (4, Get ''b''), (5, Has ''c''),
       (11, Get ''b''), (12, Delete ''a''), (13, Has ''a'')] :: (int \<times> string op) list"
  let ?st = "\<lparr>items = [], quota_ok = (\<lambda>xs. True)\<rparr> :: string localStorage"
  let ?h = "\<lambda>k :: string. ''0'' @ k"
  have h1: "maxSize ?o = Some 0" by simp
  have h2: "\<forall>c \<in> set ?ops. stores_value (snd c)" by simp
  have h3: "nondecreasing 0 ?ops" by simp
  have h4: "\<forall>c \<in> set ?ops. op_keys (snd c) \<subseteq> plain_keys" by (simp add: plain_keys_def)
  have h5: "items ?st = []" and h6: "\<forall>xs. quota_ok ?st xs" by simp_all
  have h7: "fs_keys_ok (FileSystemAdapter_new ?o ?h) UNIV"
    by (simp add: fs_keys_ok_def FileSystemAdapter_new_def inj_on_def)
  have h8: "\<forall>c \<in> set ?ops. op_keys (snd c) \<subseteq> UNIV" by simp
  have h9: "fs_files (None :: string directory) = []" by (simp add: fs_files_def)
  have i: "fst (ideal_run ?ops (\<lambda>k. None)) =
     [Done, Done, Done, Got (Val ''x''), Got (Val ''y''), Answer True, Got Undefined, Done,
      Answer False]"
    by (simp add: ideal_lookup_def live_at_def isExpired_def new_entry_def no_options_def)
  from C9_zero_bound_is_unbounded[OF h1 h2 h3 h4 h5 h6 h7 h8 h9, of None]
  show ?thesis unfolding i by auto
qed

section \<open>C2: the three adapters side by side\<close>




section \<open>A series of inserts under a bound: the volatile adapter\<close>

lemma update_append_new:
  "key \<notin> fst ` set xs \<Longrightarrow> AList.update key v xs = xs @ [(key, v)]"
  by (induction xs) auto

lemma delete_hd_distinct:
  "xs \<noteq> [] \<Longrightarrow> distinct (map fst xs) \<Longrightarrow> AList.delete (fst (hd xs)) xs = tl xs"
  by (cases xs) (fastforce simp: delete_filter filter_id_conv image_iff)+

lemma last_n_step:
  assumes "length xs \<le> n" and "0 < n"
  shows "drop (length ((if n \<le> length xs then tl xs else xs) @ e # rest) - n)
           ((if n \<le> length xs then tl xs else xs) @ e # rest) =
         drop (length (xs @ e # rest) - n) (xs @ e # rest)"
proof (cases "n \<le> length xs")
  case True
  with assms obtain x xs' where x: "xs = x # xs'" and l: "length xs' = n - 1"
    by (cases xs) auto
  with assms have n: "n = Suc (length xs')" by simp
  show ?thesis by (simp add: x n)
next
  case False
  then show ?thesis by simp
qed

lemma mem_purge_none:
  fixes s :: "'v MemoryAdapter"
  assumes "distinct (map fst (mem_store s))" and "set (mem_accessOrder s) \<subseteq> fst ` set (mem_store s)"
    and "\<forall>p \<in> set (mem_store s). \<not> isExpired now (snd p)"
  shows "mem_purge now s = s"
proof (rule MemoryAdapter.equality)
  show "mem_store (mem_purge now s) = mem_store s"
    using assms(3) by (simp add: mem_purge_store[OF assms(1)] filter_id_conv case_prod_beta)
  have e: "expired_keys now (mem_store s) = []"
    using assms(3) by (simp add: expired_keys_def filter_empty_conv case_prod_beta)
  show "mem_accessOrder (mem_purge now s) = mem_accessOrder s"
    using assms(2) by (auto simp: mem_purge_order e filter_id_conv)
  show "mem_maxSize (mem_purge now s) = mem_maxSize s" by (simp add: mem_purge_maxSize)
  show "MemoryAdapter.more (mem_purge now s) = MemoryAdapter.more s" by simp
qed

lemma mem_record:
  fixes s :: "'v MemoryAdapter"
  shows "s\<lparr>mem_store := a, mem_accessOrder := b\<rparr> =
         \<lparr>mem_store = a, mem_maxSize = mem_maxSize s, mem_accessOrder = b\<rparr>"
  by (cases s) simp

lemma filter_neq_absent: "key \<notin> set ks \<Longrightarrow> filter (\<lambda>k. k \<noteq> key) ks = ks"
  by (auto simp: filter_id_conv)

lemma mem_set_append:
  fixes s :: "'v MemoryAdapter"
  assumes "mem_inv s" and "mem_maxSize s = enat n" and "mem_accessOrder s = map fst (mem_store s)"
    and "\<forall>p \<in> set (mem_store s). \<not> isExpired now (snd p)"
    and "key \<notin> fst ` set (mem_store s)" and "key \<noteq> []"
  shows "mem_set key v options now s =
           Some \<lparr>mem_store = (if n \<le> length (mem_store s) then tl (mem_store s) else mem_store s) @
                              [(key, new_entry now v options)],
                 mem_maxSize = enat n,
                 mem_accessOrder = map fst (if n \<le> length (mem_store s) then tl (mem_store s)
                                            else mem_store s) @ [key]\<rparr>"
proof -
  have d: "distinct (map fst (mem_store s))" and o: "set (mem_accessOrder s) \<subseteq> fst ` set (mem_store s)"
    and e: "[] \<notin> set (mem_accessOrder s)" and z: "mem_maxSize s \<noteq> 0"
    using assms(1) by (auto simp: mem_inv_def)
  have p: "mem_purge now s = s" by (rule mem_purge_none[OF d o assms(4)])
  have a: "map_of (mem_store s) key = None"
    using assms(5) by (simp add: map_of_eq_None_iff)
  have n0: "n \<noteq> 0" using z assms(2) by (simp add: zero_enat_def)
  show ?thesis
  proof (cases "n \<le> length (mem_store s)")
    case True
    with n0 obtain x xs where x: "mem_store s = x # xs" by (cases "mem_store s") auto
    have h: "fst x \<noteq> []" using e assms(3) x by auto
    have k: "key \<notin> fst ` set xs" "fst x \<notin> fst ` set xs" using assms(5) d x by auto
    have del: "AList.delete (fst x) (x # xs) = xs"
      using k(2) by (fastforce simp: delete_filter filter_id_conv image_iff)
    have ev: "mem_evict_for key s = s\<lparr>mem_store := xs, mem_accessOrder := map fst xs\<rparr>"
      using True a h x assms(2,3) del by (simp add: mem_evict_for_def)
    have f: "filter (\<lambda>k. k \<noteq> key) (map fst xs) = map fst xs"
      using k(1) by (intro filter_neq_absent) simp
    show ?thesis
      using True x assms(2)
      by (simp add: mem_set_unfold[OF assms(1)] p ev mem_updateAccessOrder_def
          update_append_new[OF k(1)] f mem_record)
  next
    case False
    have ev: "mem_evict_for key s = s" using False assms(2) by (simp add: mem_evict_for_def)
    have f: "filter (\<lambda>k. k \<noteq> key) (map fst (mem_store s)) = map fst (mem_store s)"
      using assms(5) by (intro filter_neq_absent) simp
    have r: "s\<lparr>mem_store := mem_store s @ [(key, new_entry now v options)],
               mem_accessOrder := map fst (mem_store s) @ [key]\<rparr> =
             \<lparr>mem_store = mem_store s @ [(key, new_entry now v options)], mem_maxSize = enat n,
               mem_accessOrder = map fst (mem_store s) @ [key]\<rparr>"
      by (simp add: mem_record assms(2))
    show ?thesis
      using False
      by (simp add: mem_set_unfold[OF assms(1)] p ev mem_updateAccessOrder_def
          update_append_new[OF assms(5)] assms(3) f r)
  qed
qed

lemma not_expired_without_expiry: "expiry e = None \<Longrightarrow> \<not> isExpired now e"
  by (simp add: isExpired_def)

lemma new_entry_no_ttl: "ttl opts = None \<Longrightarrow> expiry (new_entry t v opts) = None"
  by (simp add: new_entry_def)

lemma last_n_short: "length xs \<le> n \<Longrightarrow> last_n n xs = xs"
  by (simp add: last_n_def)

lemma last_n_append_step:
  assumes "length xs \<le> n" and "0 < n"
  shows "last_n n ((if n \<le> length xs then tl xs else xs) @ e # rest) = last_n n (xs @ e # rest)"
  unfolding last_n_def by (rule last_n_step[OF assms])

lemma length_last_n: "length (last_n n xs) \<le> n"
  by (simp add: last_n_def)

lemma mem_run_inserts:
  fixes s :: "'v MemoryAdapter"
  assumes "mem_inv s" and "mem_maxSize s = enat n" and "mem_accessOrder s = map fst (mem_store s)"
    and "\<forall>p \<in> set (mem_store s). expiry (snd p) = None" and "ttl opts = None"
    and "distinct (map (fst \<circ> snd) ins)" and "[] \<notin> (fst \<circ> snd) ` set ins"
    and "(fst \<circ> snd) ` set ins \<inter> fst ` set (mem_store s) = {}"
  shows "mem_run (set_calls opts ins) s =
           Some (replicate (length ins) Done,
                 \<lparr>mem_store = last_n n (mem_store s @ written opts ins), mem_maxSize = enat n,
                  mem_accessOrder = map fst (last_n n (mem_store s @ written opts ins))\<rparr>)"
  using assms
proof (induction ins arbitrary: s)
  case Nil
  then have "length (mem_store s) \<le> n" by (simp add: mem_inv_def)
  with Nil show ?case
    by (cases s) (simp add: set_calls_def written_def last_n_short)
next
  case (Cons x ins)
  obtain t k v where x: "x = (t, k, v)" by (cases x)
  let ?xs = "if n \<le> length (mem_store s) then tl (mem_store s) else mem_store s"
  let ?e = "new_entry t (Val v) opts"
  let ?s1 = "\<lparr>mem_store = ?xs @ [(k, ?e)], mem_maxSize = enat n,
              mem_accessOrder = map fst ?xs @ [k]\<rparr> :: 'v MemoryAdapter"
  have ne: "\<forall>p \<in> set (mem_store s). \<not> isExpired t (snd p)"
    using Cons.prems(4) by (simp add: not_expired_without_expiry)
  have kf: "k \<notin> fst ` set (mem_store s)" and k0: "k \<noteq> []"
    using Cons.prems(7,8) x by auto
  have st: "mem_set k (Val v) opts t s = Some ?s1"
    by (rule mem_set_append[OF Cons.prems(1,2,3) ne kf k0])
  have i1: "mem_inv ?s1" by (rule mem_set_inv[OF Cons.prems(1) k0 st])
  have sub: "set ?xs \<subseteq> set (mem_store s)"
    by (cases "mem_store s") auto
  have i4: "\<forall>p \<in> set (mem_store ?s1). expiry (snd p) = None"
    using Cons.prems(4,5) sub by (auto simp: new_entry_no_ttl)
  have i6: "distinct (map (fst \<circ> snd) ins)" and i7: "[] \<notin> (fst \<circ> snd) ` set ins"
    using Cons.prems(6,7) by (simp_all add: comp_def)
  have i8: "(fst \<circ> snd) ` set ins \<inter> fst ` set (mem_store ?s1) = {}"
    using Cons.prems(6,8) sub x by (auto simp: image_iff) force+
  have l: "length (mem_store s) \<le> n" and n0: "0 < n"
    using Cons.prems(1,2) by (auto simp: mem_inv_def zero_enat_def)
  have w: "written opts (x # ins) = (k, ?e) # written opts ins"
    by (simp add: written_def x)
  have ln: "last_n n (mem_store ?s1 @ written opts ins) = last_n n (mem_store s @ written opts (x # ins))"
    using last_n_append_step[OF l n0, of "(k, ?e)" "written opts ins"] by (simp add: w)
  from Cons.IH[of ?s1, OF i1 _ _ i4 Cons.prems(5) i6 i7 i8]
  have r: "mem_run (set_calls opts ins) ?s1 =
           Some (replicate (length ins) Done,
                 \<lparr>mem_store = last_n n (mem_store ?s1 @ written opts ins), mem_maxSize = enat n,
                  mem_accessOrder = map fst (last_n n (mem_store ?s1 @ written opts ins))\<rparr>)"
    by simp
  have c: "set_calls opts (x # ins) = (t, Set k (Val v) opts) # set_calls opts ins"
    by (simp add: set_calls_def x)
  show ?case
    unfolding c by (simp add: st r ln del: MemoryAdapter.simps)
qed

section \<open>A series of inserts under a bound: the key/value adapter\<close>

lemma map_of_append_new:
  "key \<notin> fst ` set xs \<Longrightarrow> map_of (xs @ [(key, e)]) = (map_of xs)(key \<mapsto> e)"
  by (induction xs) (auto simp: fun_upd_twist)

lemma ls_order_OrderDoc:
  "ls_map st (ls_accessOrderKey A) = Some (OrderDoc ks) \<Longrightarrow> ls_order A st = ks"
  by (simp add: ls_order_def ls_getAccessOrder_OrderDoc)

lemma ls_set_append:
  fixes st :: "'v localStorage"
  assumes "ls_wf A" and "ls_maxSize A = enat n" and "0 < n"
    and "ls_holds A st xs" and "distinct (map fst xs)" and "[] \<notin> fst ` set xs"
    and "length xs \<le> n" and "key \<notin> fst ` set xs" and "key \<noteq> ''__access_order''"
  shows "\<exists>st'. ls_set A key v options now (Some st) = (Inr (), Some st') \<and>
           ls_holds A st' ((if n \<le> length xs then tl xs else xs) @ [(key, new_entry now v options)])"
proof -
  let ?e = "new_entry now v options"
  let ?m1 = "(ls_map st)(ls_getFullKey A key \<mapsto> EntryDoc ?e)"
  have ok: "ls_ok A st" and od: "ls_order A st = map fst xs"
    and mp: "\<And>k. k \<noteq> ''__access_order'' \<Longrightarrow>
               ls_map st (ls_getFullKey A k) = map_option EntryDoc (map_of xs k)"
    using assms(4) by (simp_all add: ls_holds_def)
  have fk: "ls_getFullKey A key \<noteq> ls_accessOrderKey A"
    by (rule ls_fullKey_neq_reserved[OF assms(1,9)])
  have o: "filter (\<lambda>k. k \<noteq> key) (ls_order A st) @ [key] = map fst xs @ [key]"
    using assms(8) by (simp add: od filter_neq_absent)
  from ls_set_ok[OF ok fk, of v options now, unfolded o] obtain st' where
    s: "ls_set A key v options now (Some st) = (Inr (), Some st')" and ok': "ls_ok A st'"
    and m: "ls_map st' =
             (if enat (length (map fst xs @ [key])) > ls_maxSize A
              then (if hd (map fst xs @ [key]) \<noteq> []
                    then ?m1(ls_getFullKey A (hd (map fst xs @ [key])) := None)
                    else ?m1)(ls_accessOrderKey A \<mapsto> OrderDoc (tl (map fst xs @ [key])))
              else ?m1(ls_accessOrderKey A \<mapsto> OrderDoc (map fst xs @ [key])))"
    by blast
  have r: "\<And>k. k \<noteq> ''__access_order'' \<Longrightarrow> ls_getFullKey A k \<noteq> ls_accessOrderKey A"
    by (rule ls_fullKey_neq_reserved[OF assms(1)])
  show ?thesis
  proof (cases "n \<le> length xs")
    case True
    with assms(3) obtain x xs' where x: "xs = x # xs'" by (cases xs) auto
    have h: "fst x \<noteq> []" using assms(6) x by auto
    have d: "fst x \<notin> fst ` set xs'" "key \<notin> fst ` set xs'" "key \<noteq> fst x"
      using assms(5,8) x by auto
    have m': "ls_map st' = (?m1(ls_getFullKey A (fst x) := None))
                (ls_accessOrderKey A \<mapsto> OrderDoc (map fst xs' @ [key]))"
      using m True h assms(2) by (simp add: x)
    have 1: "ls_order A st' = map fst (xs' @ [(key, ?e)])"
      by (rule ls_order_OrderDoc) (simp add: m')
    have 2: "ls_map st' (ls_getFullKey A k) = map_option EntryDoc (map_of (xs' @ [(key, ?e)]) k)"
      if "k \<noteq> ''__access_order''" for k
    proof -
      have "map_of xs' (fst x) = None" using d(1) by (simp add: map_of_eq_None_iff)
      then show ?thesis
        using r[OF that] mp[OF that] d
        by (simp add: m' ls_fullKey_inj map_of_append_new[OF d(2)] x del: map_of_append)
    qed
    show ?thesis
      using s ok' 1 2 True by (auto simp: ls_holds_def x)
  next
    case False
    have m': "ls_map st' = ?m1(ls_accessOrderKey A \<mapsto> OrderDoc (map fst xs @ [key]))"
      using m False assms(2) by simp
    have 1: "ls_order A st' = map fst (xs @ [(key, ?e)])"
      by (rule ls_order_OrderDoc) (simp add: m')
    have 2: "ls_map st' (ls_getFullKey A k) = map_option EntryDoc (map_of (xs @ [(key, ?e)]) k)"
      if "k \<noteq> ''__access_order''" for k
      using r[OF that] mp[OF that]
      by (simp add: m' ls_fullKey_inj map_of_append_new[OF assms(8)] del: map_of_append)
    show ?thesis
      using s ok' 1 2 False by (auto simp: ls_holds_def)
  qed
qed

lemma step_list_facts:
  assumes "distinct (map fst xs)" and "[] \<notin> fst ` set xs" and "length xs \<le> n" and "0 < n"
    and "k \<notin> fst ` set xs" and "k \<noteq> []"
  shows "distinct (map fst ((if n \<le> length xs then tl xs else xs) @ [(k, e)]))"
    and "[] \<notin> fst ` set ((if n \<le> length xs then tl xs else xs) @ [(k, e)])"
    and "length ((if n \<le> length xs then tl xs else xs) @ [(k, e)]) \<le> n"
    and "fst ` set ((if n \<le> length xs then tl xs else xs) @ [(k, e)]) \<subseteq> insert k (fst ` set xs)"
  using assms by (cases xs; auto)+

lemma ls_run_inserts:
  fixes st :: "'v localStorage"
  assumes "ls_wf A" and "ls_maxSize A = enat n" and "0 < n"
    and "ls_holds A st xs" and "distinct (map fst xs)" and "[] \<notin> fst ` set xs"
    and "length xs \<le> n"
    and "distinct (map (fst \<circ> snd) ins)" and "[] \<notin> (fst \<circ> snd) ` set ins"
    and "''__access_order'' \<notin> (fst \<circ> snd) ` set ins"
    and "(fst \<circ> snd) ` set ins \<inter> fst ` set xs = {}"
  shows "\<exists>st'. ls_run A (set_calls opts ins) (Some st) = (replicate (length ins) Done, Some st') \<and>
           ls_holds A st' (last_n n (xs @ written opts ins))"
  using assms(4-)
proof (induction ins arbitrary: st xs)
  case Nil
  then show ?case by (simp add: set_calls_def written_def last_n_short)
next
  case (Cons x ins)
  obtain t k v where x: "x = (t, k, v)" by (cases x)
  let ?e = "new_entry t (Val v) opts"
  let ?xs1 = "(if n \<le> length xs then tl xs else xs) @ [(k, ?e)]"
  have kf: "k \<notin> fst ` set xs" and k0: "k \<noteq> []" and kr: "k \<noteq> ''__access_order''"
    using Cons.prems(5,6,7,8) x by auto
  from ls_set_append[OF assms(1,2,3) Cons.prems(1,2,3,4) kf kr, of "Val v" opts t]
  obtain st1 where s: "ls_set A k (Val v) opts t (Some st) = (Inr (), Some st1)"
    and h1: "ls_holds A st1 ?xs1" by blast
  note f = step_list_facts[OF Cons.prems(2,3,4) assms(3) kf k0, of ?e]
  have i5: "distinct (map (fst \<circ> snd) ins)" and i6: "[] \<notin> (fst \<circ> snd) ` set ins"
    and i7: "''__access_order'' \<notin> (fst \<circ> snd) ` set ins"
    using Cons.prems(5,6,7) by (simp_all add: comp_def)
  have i8: "(fst \<circ> snd) ` set ins \<inter> fst ` set ?xs1 = {}"
  proof -
    have "k \<notin> (fst \<circ> snd) ` set ins" using Cons.prems(5) x by (simp add: comp_def)
    moreover have "(fst \<circ> snd) ` set ins \<inter> fst ` set xs = {}" using Cons.prems(8) by auto
    ultimately show ?thesis using f(4) by blast
  qed
  from Cons.IH[OF h1 f(1,2,3) i5 i6 i7 i8]
  obtain st' where r: "ls_run A (set_calls opts ins) (Some st1) = (replicate (length ins) Done, Some st')"
    and h': "ls_holds A st' (last_n n (?xs1 @ written opts ins))" by blast
  have w: "written opts (x # ins) = (k, ?e) # written opts ins"
    by (simp add: written_def x)
  have c: "set_calls opts (x # ins) = (t, Set k (Val v) opts) # set_calls opts ins"
    by (simp add: set_calls_def x)
  show ?case
    unfolding c
    using h' last_n_append_step[OF Cons.prems(4) assms(3), of "(k, ?e)" "written opts ins"]
    by (simp add: s r w reply_of_def)
qed

lemma ls_holds_get:
  fixes st :: "'v localStorage"
  assumes "ls_holds A st xs" and "key \<noteq> ''__access_order''"
    and "\<forall>p \<in> set xs. expiry (snd p) = None"
  shows "fst (ls_get A key now (Some st)) =
           Inr (case map_of xs key of None \<Rightarrow> Undefined | Some e \<Rightarrow> entry_value e)"
proof (cases "map_of xs key")
  case None
  with assms(1,2) have "ls_map st (ls_getFullKey A key) = None" by (simp add: ls_holds_def)
  with ls_get_absent[of st A key now] None show ?thesis by simp
next
  case (Some e)
  with assms(1,2) have m: "ls_map st (ls_getFullKey A key) = Some (EntryDoc e)"
    by (simp add: ls_holds_def)
  have ok: "ls_ok A st" using assms(1) by (simp add: ls_holds_def)
  from Some have "(key, e) \<in> set xs" by (rule map_of_SomeD)
  with assms(3) have nx: "\<not> isExpired now e" by (auto simp: not_expired_without_expiry)
  have pe: "parse_entry (EntryDoc e) = Some e" by (simp add: parse_entry_def)
  from ls_get_hit[OF ok m _ pe nx] Some show ?thesis by auto
qed

end
